theory Spec2Isabelle
  imports Main
begin

section \<open>Values\<close>

text \<open>
  Signals and callbacks are compared by reference in the source (they are members of
  JavaScript \<open>Set\<close>s), so both are modelled by an identity: a signal by the index of its
  cell in the heap of signals, a callback by the index of its body in the table of
  callbacks.
\<close>

type_synonym sid = nat
type_synonym cbid = nat

text \<open>
  A JavaScript value is a tree. An object is the list of its own enumerable properties in
  insertion order; an array is the list of its index properties, the index written as a
  string, as JavaScript does. \<open>Prox c fs\<close> is what \<open>recursiveProxy\<close> returns:
  \<open>new Proxy(parsed, {set ...})\<close>, where \<open>fs\<close> are the properties of \<open>parsed\<close> and \<open>c\<close> is the
  signal whose \<open>notifyListeners\<close> is the handler's \<open>callback\<close>. Numbers are integers.
  Prototype properties (\<open>length\<close>, \<open>toString\<close>, ...) are not modelled, and an object is
  held in one place only: the tree has no aliasing.
\<close>

datatype jsval =
    Undefined
  | Null
  | Bool bool
  | Num int
  | Str string
  | Arr "(string \<times> jsval) list"
  | Obj "(string \<times> jsval) list"
  | Prox sid "(string \<times> jsval) list"

text \<open>The test \<open>typeof v === "object" && v !== null && !Array.isArray(v)\<close>.\<close>

fun isPlainObject :: "jsval \<Rightarrow> bool" where
  "isPlainObject (Obj fs) = True"
| "isPlainObject (Prox c fs) = True"
| "isPlainObject v = False"

text \<open>
  \<open>recursiveProxy(obj, callback)\<close>: \<open>parsed\<close> is the \<open>reduce\<close> over \<open>Object.keys(obj)\<close>, which
  wraps each property that passes the test and copies every other one. Both call sites
  guard the call with the test, so the last equation of \<open>recursiveProxy\<close> is never used.
\<close>

fun recursiveProxy :: "jsval \<Rightarrow> sid \<Rightarrow> jsval"
  and parsed :: "(string \<times> jsval) list \<Rightarrow> sid \<Rightarrow> (string \<times> jsval) list" where
  "recursiveProxy (Obj fs) callback = Prox callback (parsed fs callback)"
| "recursiveProxy (Prox c fs) callback = Prox callback (parsed fs callback)"
| "recursiveProxy v callback = v"
| "parsed [] callback = []"
| "parsed ((key, v) # fs) callback =
     (key, if isPlainObject v then recursiveProxy v callback else v) # parsed fs callback"

text \<open>Reading and writing a property of a value, with no trap: \<open>o[k]\<close> and \<open>o[k] = v\<close>.\<close>

datatype exn = TypeError | ReferenceError | UserError

fun get_field :: "(string \<times> jsval) list \<Rightarrow> string \<Rightarrow> jsval" where
  "get_field [] k = Undefined"
| "get_field ((k', v) # fs) k = (if k' = k then v else get_field fs k)"

fun set_field :: "(string \<times> jsval) list \<Rightarrow> string \<Rightarrow> jsval \<Rightarrow> (string \<times> jsval) list" where
  "set_field [] k v = [(k, v)]"
| "set_field ((k', v') # fs) k v =
     (if k' = k then (k, v) # fs else (k', v') # set_field fs k v)"

fun js_get :: "jsval \<Rightarrow> string \<Rightarrow> exn + jsval" where
  "js_get Undefined k = Inl TypeError"
| "js_get Null k = Inl TypeError"
| "js_get (Arr fs) k = Inr (get_field fs k)"
| "js_get (Obj fs) k = Inr (get_field fs k)"
| "js_get (Prox c fs) k = Inr (get_field fs k)"
| "js_get v k = Inr Undefined"

text \<open>\<open>walk v [p1, ..., pn]\<close> is \<open>v.p1. ... .pn\<close>.\<close>

fun walk :: "jsval \<Rightarrow> string list \<Rightarrow> exn + jsval" where
  "walk v [] = Inr v"
| "walk v (p # ps) = (case js_get v p of Inl e \<Rightarrow> Inl e | Inr u \<Rightarrow> walk u ps)"

text \<open>
  \<open>assign_at v [p1, ..., pn] k x\<close> is the tree \<open>v\<close> after \<open>v.p1. ... .pn[k] = x\<close> has stored
  \<open>x\<close>; only the object at the end of the path changes.
\<close>

fun with_field :: "jsval \<Rightarrow> string \<Rightarrow> jsval \<Rightarrow> jsval" where
  "with_field (Arr fs) k x = Arr (set_field fs k x)"
| "with_field (Obj fs) k x = Obj (set_field fs k x)"
| "with_field (Prox c fs) k x = Prox c (set_field fs k x)"
| "with_field v k x = v"

fun child :: "jsval \<Rightarrow> string \<Rightarrow> jsval" where
  "child (Arr fs) k = get_field fs k"
| "child (Obj fs) k = get_field fs k"
| "child (Prox c fs) k = get_field fs k"
| "child v k = Undefined"

fun assign_at :: "jsval \<Rightarrow> string list \<Rightarrow> string \<Rightarrow> jsval \<Rightarrow> jsval" where
  "assign_at v [] k x = with_field v k x"
| "assign_at v (p # ps) k x = with_field v p (assign_at (child v p) ps k x)"

text \<open>
  \<open>u === v\<close> where \<open>v\<close> is a literal of the caller: primitives are compared by value, and
  an object literal is a new object, equal to nothing that exists.
\<close>

fun is_primitive :: "jsval \<Rightarrow> bool" where
  "is_primitive (Arr fs) = False"
| "is_primitive (Obj fs) = False"
| "is_primitive (Prox c fs) = False"
| "is_primitive v = True"

definition strict_eq :: "jsval \<Rightarrow> jsval \<Rightarrow> bool" where
  "strict_eq u v = (is_primitive u \<and> u = v)"

section \<open>State\<close>

text \<open>
  A \<open>Set\<close> is the list of its entries in insertion order, and \<open>delete\<close> leaves a hole
  (\<open>None\<close>) where the entry was, as the language standard describes it: that is what
  \<open>forEach\<close> walks when the set changes under it.
\<close>

type_synonym 'a jsset = "'a option list"

definition set_has :: "'a jsset \<Rightarrow> 'a \<Rightarrow> bool" where
  "set_has xs x = (Some x \<in> set xs)"

definition set_add :: "'a jsset \<Rightarrow> 'a \<Rightarrow> 'a jsset" where
  "set_add xs x = (if Some x \<in> set xs then xs else xs @ [Some x])"

definition set_delete :: "'a jsset \<Rightarrow> 'a \<Rightarrow> 'a jsset" where
  "set_delete xs x = map (\<lambda>e. if e = Some x then None else e) xs"

text \<open>\<open>Array.from(set)\<close>: the entries, in insertion order.\<close>

fun array_from :: "'a jsset \<Rightarrow> 'a list" where
  "array_from [] = []"
| "array_from (None # xs) = array_from xs"
| "array_from (Some x # xs) = x # array_from xs"

text \<open>
  The target of a signal's proxy holds \<open>value\<close>; \<open>listeners\<close> is the set the closure of
  \<open>createSignal\<close> holds for it.
\<close>

record cell =
  sig_value :: jsval
  listeners :: "cbid jsset"

text \<open>
  The trace is not part of the program: it records each call of a callback and each
  read of a signal's \<open>value\<close> through the \<open>get\<close> trap, so that "invoked once" and "read
  during the run" can be stated.
\<close>

datatype event = Invoked cbid | ReadValue sid

text \<open>
  The module's variables \<open>store\<close>, \<open>isRunningEffect\<close> and \<open>effectDependencies\<close>, and the
  signals created so far. \<open>store\<close> maps a signal to its own listener set, so its keys are
  all it adds.
\<close>

record state =
  cells :: "cell list"
  store :: "sid list"
  isRunningEffect :: bool
  effectDependencies :: "sid jsset"
  trace :: "event list"

definition init :: state where
  "init = \<lparr>cells = [], store = [], isRunningEffect = False, effectDependencies = [],
           trace = []\<rparr>"

definition listeners_of :: "state \<Rightarrow> sid \<Rightarrow> cbid jsset" where
  "listeners_of st s = (if s < length (cells st) then listeners (cells st ! s) else [])"

definition value_of :: "state \<Rightarrow> sid \<Rightarrow> jsval" where
  "value_of st s = (if s < length (cells st) then sig_value (cells st ! s) else Undefined)"

definition store_value :: "state \<Rightarrow> sid \<Rightarrow> jsval \<Rightarrow> state" where
  "store_value st s v = st\<lparr>cells := (cells st)[s := (cells st ! s)\<lparr>sig_value := v\<rparr>]\<rparr>"

definition store_listeners :: "state \<Rightarrow> sid \<Rightarrow> cbid jsset \<Rightarrow> state" where
  "store_listeners st s ls = st\<lparr>cells := (cells st)[s := (cells st ! s)\<lparr>listeners := ls\<rparr>]\<rparr>"

definition record_event :: "event \<Rightarrow> state \<Rightarrow> state" where
  "record_event e st = st\<lparr>trace := trace st @ [e]\<rparr>"

section \<open>createSignal\<close>

text \<open>The closures of \<open>subscribe\<close>: \<open>listeners.add(callback)\<close> and \<open>listeners.delete(callback)\<close>.\<close>

definition subscribe :: "state \<Rightarrow> sid \<Rightarrow> cbid \<Rightarrow> state" where
  "subscribe st s callback = store_listeners st s (set_add (listeners_of st s) callback)"

definition unsubscribe :: "state \<Rightarrow> sid \<Rightarrow> cbid \<Rightarrow> state" where
  "unsubscribe st s callback = store_listeners st s (set_delete (listeners_of st s) callback)"

text \<open>What \<open>target[prop]\<close> is, for the target \<open>{value, subscribe}\<close>.\<close>

datatype getres = Payload jsval | SubscribeFn sid

definition target_get :: "state \<Rightarrow> sid \<Rightarrow> string \<Rightarrow> getres" where
  "target_get st s prop =
     (if prop = ''value'' then Payload (value_of st s)
      else if prop = ''subscribe'' then SubscribeFn s
      else Payload Undefined)"

fun payload :: "getres \<Rightarrow> jsval" where
  "payload (Payload v) = v"
| "payload (SubscribeFn s) = Undefined"

text \<open>The \<open>get\<close> trap of the signal's proxy.\<close>

definition get_trap :: "state \<Rightarrow> sid \<Rightarrow> string \<Rightarrow> getres \<times> state" where
  "get_trap st s prop =
     (let st1 = (if prop = ''value'' then record_event (ReadValue s) st else st);
          st2 = (if prop = ''value'' \<and> isRunningEffect st1
                 then st1\<lparr>effectDependencies := set_add (effectDependencies st1) s\<rparr>
                 else st1)
      in (target_get st2 s prop, st2))"

text \<open>
  \<open>createSignal(initialValue)\<close>: the new signal is the next cell; its listener set is
  empty, and a plain object is wrapped before it is stored.
\<close>

definition createSignal :: "state \<Rightarrow> jsval \<Rightarrow> sid \<times> state" where
  "createSignal st initialValue =
     (let signal = length (cells st);
          v = (if isPlainObject initialValue then recursiveProxy initialValue signal
               else initialValue)
      in (signal, st\<lparr>cells := cells st @ [\<lparr>sig_value = v, listeners = []\<rparr>],
                      store := store st @ [signal]\<rparr>))"

section \<open>Callers\<close>

text \<open>
  A callback is code of the caller. Its body is a list of the operations it performs on
  signals, in strict mode as module code is:
  \<^item> \<open>GetProp s k\<close> is the read \<open>s[k]\<close>;
  \<^item> \<open>SetProp s k v\<close> is \<open>s[k] = v\<close>, a TypeError when the trap returns false;
  \<^item> \<open>SetNested s [p1, ..., pn] k v\<close> is \<open>s.value.p1. ... .pn[k] = v\<close>;
  \<^item> \<open>InnerGet o k\<close> is \<open>o[k]\<close> for an inner proxy \<open>o\<close> the caller already holds;
  \<^item> \<open>Subscribe s cb\<close> is \<open>s.subscribe(cb)\<close>, and \<open>Unsubscribe s cb\<close> calls the function
    that it returned;
  \<^item> \<open>Throw\<close> is \<open>throw\<close>;
  \<^item> \<open>If c t e\<close> is \<open>if (c) {t} else {e}\<close>, where \<open>ValueIs s v\<close> is \<open>s.value === v\<close>.
  A callback does not create signals and does not call \<open>signalEffect\<close>.
\<close>

datatype cond = Const bool | ValueIs sid jsval

datatype action =
    GetProp sid string
  | SetProp sid string jsval
  | SetNested sid "string list" string jsval
  | InnerGet jsval string
  | Subscribe sid cbid
  | Unsubscribe sid cbid
  | Throw
  | If cond "action list" "action list"

type_synonym callbacks = "cbid \<Rightarrow> action list"

text \<open>
  A call returns, throws (the state is as the throw left it), or does not end: a listener
  may write to the signal that notified it. The fuel bounds the number of listener
  entries visited.
\<close>

datatype 'a outcome = OutOfFuel | Threw exn state | Done 'a

text \<open>
  \<open>notifyListeners\<close> is \<open>listeners.forEach((cb) => cb())\<close>, and \<open>forEach\<close> visits the entries
  by index in the set as it is at each step. \<open>set_trap\<close> is the \<open>set\<close> trap of the signal's
  proxy, \<open>proxy_set_trap\<close> the one of \<open>recursiveProxy\<close>, for the proxy at \<open>path\<close> in the
  value of signal \<open>s\<close>.
\<close>

function (sequential) exec :: "callbacks \<Rightarrow> nat \<Rightarrow> action list \<Rightarrow> state \<Rightarrow> state outcome"
  and step :: "callbacks \<Rightarrow> nat \<Rightarrow> action \<Rightarrow> state \<Rightarrow> state outcome"
  and set_trap :: "callbacks \<Rightarrow> nat \<Rightarrow> sid \<Rightarrow> string \<Rightarrow> jsval \<Rightarrow> state \<Rightarrow> (bool \<times> state) outcome"
  and proxy_set_trap ::
    "callbacks \<Rightarrow> nat \<Rightarrow> sid \<Rightarrow> sid \<Rightarrow> string list \<Rightarrow> string \<Rightarrow> jsval \<Rightarrow> state \<Rightarrow> (bool \<times> state) outcome"
  and notifyListeners :: "callbacks \<Rightarrow> nat \<Rightarrow> sid \<Rightarrow> state \<Rightarrow> state outcome"
  and forEach :: "callbacks \<Rightarrow> nat \<Rightarrow> sid \<Rightarrow> nat \<Rightarrow> state \<Rightarrow> state outcome" where
  "exec cbs f [] st = Done st"
| "exec cbs f (a # as) st =
     (case step cbs f a st of
        Done st' \<Rightarrow> exec cbs f as st'
      | Threw e st' \<Rightarrow> Threw e st'
      | OutOfFuel \<Rightarrow> OutOfFuel)"
| "step cbs f (GetProp s prop) st =
     (if s < length (cells st) then Done (snd (get_trap st s prop))
      else Threw ReferenceError st)"
| "step cbs f (SetProp s prop v) st =
     (if s < length (cells st) then
        (case set_trap cbs f s prop v st of
           Done (ok, st') \<Rightarrow> if ok then Done st' else Threw TypeError st'
         | Threw e st' \<Rightarrow> Threw e st'
         | OutOfFuel \<Rightarrow> OutOfFuel)
      else Threw ReferenceError st)"
| "step cbs f (SetNested s path prop v) st =
     (if s < length (cells st) then
        (case get_trap st s ''value'' of (root, st1) \<Rightarrow>
           (case walk (payload root) path of
              Inl e \<Rightarrow> Threw e st1
            | Inr (Prox callback fs) \<Rightarrow>
                (case proxy_set_trap cbs f callback s path prop v st1 of
                   Done (ok, st') \<Rightarrow> Done st'
                 | Threw e st' \<Rightarrow> Threw e st'
                 | OutOfFuel \<Rightarrow> OutOfFuel)
            | Inr (Obj fs) \<Rightarrow> Done (store_value st1 s (assign_at (payload root) path prop v))
            | Inr (Arr fs) \<Rightarrow> Done (store_value st1 s (assign_at (payload root) path prop v))
            | Inr u \<Rightarrow> Threw TypeError st1))
      else Threw ReferenceError st)"
| "step cbs f (InnerGet obj prop) st = Done st"
| "step cbs f (Subscribe s callback) st =
     (if s < length (cells st) then Done (subscribe (snd (get_trap st s ''subscribe'')) s callback)
      else Threw ReferenceError st)"
| "step cbs f (Unsubscribe s callback) st =
     (if s < length (cells st) then Done (unsubscribe st s callback)
      else Threw ReferenceError st)"
| "step cbs f Throw st = Threw UserError st"
| "step cbs f (If (Const b) t e) st = (if b then exec cbs f t st else exec cbs f e st)"
| "step cbs f (If (ValueIs s v) t e) st =
     (if s < length (cells st) then
        (case get_trap st s ''value'' of (r, st1) \<Rightarrow>
           if strict_eq (payload r) v then exec cbs f t st1 else exec cbs f e st1)
      else Threw ReferenceError st)"
| "set_trap cbs f s prop newValue st =
     (if prop = ''value'' then
        (case notifyListeners cbs f s (store_value st s newValue) of
           Done st' \<Rightarrow> Done (True, st')
         | Threw e st' \<Rightarrow> Threw e st'
         | OutOfFuel \<Rightarrow> OutOfFuel)
      else Done (False, st))"
| "proxy_set_trap cbs f callback s path prop v st =
     (case notifyListeners cbs f callback
             (store_value st s (assign_at (value_of st s) path prop v)) of
        Done st' \<Rightarrow> Done (True, st')
      | Threw e st' \<Rightarrow> Threw e st'
      | OutOfFuel \<Rightarrow> OutOfFuel)"
| "notifyListeners cbs f s st = forEach cbs f s 0 st"
| "forEach cbs 0 s i st = (if i < length (listeners_of st s) then OutOfFuel else Done st)"
| "forEach cbs (Suc f) s i st =
     (if i < length (listeners_of st s) then
        (case listeners_of st s ! i of
           None \<Rightarrow> forEach cbs f s (Suc i) st
         | Some cb \<Rightarrow>
             (case exec cbs f (cbs cb) (record_event (Invoked cb) st) of
                Done st' \<Rightarrow> forEach cbs f s (Suc i) st'
              | Threw e st' \<Rightarrow> Threw e st'
              | OutOfFuel \<Rightarrow> OutOfFuel))
      else Done st)"
  by pat_completeness auto

termination
  by (relation "inv_image (less_than <*lex*> less_than) (\<lambda>x. case x of
      Inl (Inl (cbs, f, as, st)) \<Rightarrow> (f, size_list size as + 3)
    | Inl (Inr (Inl (cbs, f, a, st))) \<Rightarrow> (f, size a + 3)
    | Inl (Inr (Inr (cbs, f, s, prop, v, st))) \<Rightarrow> (f, 2)
    | Inr (Inl (cbs, f, c, s, path, prop, v, st)) \<Rightarrow> (f, 2)
    | Inr (Inr (Inl (cbs, f, s, st))) \<Rightarrow> (f, 1)
    | Inr (Inr (Inr (cbs, f, s, i, st))) \<Rightarrow> (f, 0))") auto

section \<open>Effects\<close>

text \<open>
  \<open>getDependenciesFromEffect(callback)\<close>. When the callback throws, the three statements
  after the call are not reached.
\<close>

definition getDependenciesFromEffect ::
    "callbacks \<Rightarrow> nat \<Rightarrow> cbid \<Rightarrow> state \<Rightarrow> (sid list \<times> state) outcome" where
  "getDependenciesFromEffect cbs f callback st =
     (case exec cbs f (cbs callback)
             (record_event (Invoked callback) (st\<lparr>isRunningEffect := True\<rparr>)) of
        Done st1 \<Rightarrow>
          (let st2 = st1\<lparr>isRunningEffect := False\<rparr>;
               deps = array_from (effectDependencies st2)
           in Done (deps, st2\<lparr>effectDependencies := []\<rparr>))
      | Threw e st1 \<Rightarrow> Threw e st1
      | OutOfFuel \<Rightarrow> OutOfFuel)"

text \<open>
  \<open>dependencies.map((signal) => signal.subscribe(callback))\<close>: each element of the result
  stands for the function that \<open>subscribe\<close> returned, which deletes \<open>callback\<close> from the
  listeners of that signal.
\<close>

fun subscribe_all :: "state \<Rightarrow> sid list \<Rightarrow> cbid \<Rightarrow> (sid \<times> cbid) list \<times> state" where
  "subscribe_all st [] callback = ([], st)"
| "subscribe_all st (signal # deps) callback =
     (case subscribe_all (subscribe (snd (get_trap st signal ''subscribe'')) signal callback)
             deps callback of
        (us, st') \<Rightarrow> ((signal, callback) # us, st'))"

text \<open>\<open>unsubscribes.forEach((unsubscribe) => unsubscribe())\<close>, what \<open>signalEffect\<close> returns.\<close>

fun unsubscribe_all :: "state \<Rightarrow> (sid \<times> cbid) list \<Rightarrow> state" where
  "unsubscribe_all st [] = st"
| "unsubscribe_all st ((signal, callback) # us) =
     unsubscribe_all (unsubscribe st signal callback) us"

definition signalEffect ::
    "callbacks \<Rightarrow> nat \<Rightarrow> cbid \<Rightarrow> state \<Rightarrow> ((sid \<times> cbid) list \<times> state) outcome" where
  "signalEffect cbs f callback st =
     (case getDependenciesFromEffect cbs f callback st of
        Done (dependencies, st1) \<Rightarrow> Done (subscribe_all st1 dependencies callback)
      | Threw e st1 \<Rightarrow> Threw e st1
      | OutOfFuel \<Rightarrow> OutOfFuel)"

section \<open>Observations\<close>

text \<open>The callbacks called and the signals whose \<open>value\<close> was read, in the order of the trace.\<close>

fun invocations :: "event list \<Rightarrow> cbid list" where
  "invocations [] = []"
| "invocations (Invoked cb # evs) = cb # invocations evs"
| "invocations (ReadValue s # evs) = invocations evs"

fun reads :: "event list \<Rightarrow> sid list" where
  "reads [] = []"
| "reads (Invoked cb # evs) = reads evs"
| "reads (ReadValue s # evs) = s # reads evs"

text \<open>A list without its repetitions: each element stays where it first occurs.\<close>

fun dedup :: "'a list \<Rightarrow> 'a list" where
  "dedup [] = []"
| "dedup (x # xs) = x # removeAll x (dedup xs)"

text \<open>A listener set holds a callback once.\<close>

definition sets_ok :: "state \<Rightarrow> bool" where
  "sets_ok st = list_all (\<lambda>c. distinct (array_from (listeners c))) (cells st)"

text \<open>
  What a call leaves unchanged, whether it returns or throws: the signals that exist, the
  registry and the capture flag; the trace grows, and the working set grows by the
  signals read when the flag is set.
\<close>

fun ends_in :: "state outcome \<Rightarrow> state \<Rightarrow> bool" where
  "ends_in (Done st') st = (st' = st)"
| "ends_in (Threw e st') st = (st' = st)"
| "ends_in OutOfFuel st = False"

fun ends_in2 :: "(bool \<times> state) outcome \<Rightarrow> state \<Rightarrow> bool" where
  "ends_in2 (Done r) st = (snd r = st)"
| "ends_in2 (Threw e st') st = (st' = st)"
| "ends_in2 OutOfFuel st = False"

definition frame :: "state \<Rightarrow> state \<Rightarrow> bool" where
  "frame st st' \<longleftrightarrow>
     length (cells st') = length (cells st) \<and> store st' = store st \<and>
     isRunningEffect st' = isRunningEffect st \<and>
     (sets_ok st \<longrightarrow> sets_ok st') \<and>
     (\<exists>evs. trace st' = trace st @ evs \<and>
        effectDependencies st' =
          (if isRunningEffect st then foldl set_add (effectDependencies st) (reads evs)
           else effectDependencies st))"

text \<open>
  A callback that only observes: it reads signals that exist, and branches on what it
  reads.
\<close>

fun reads_only :: "nat \<Rightarrow> action list \<Rightarrow> bool"
  and reads_only_action :: "nat \<Rightarrow> action \<Rightarrow> bool" where
  "reads_only n [] = True"
| "reads_only n (a # acts) = (reads_only_action n a \<and> reads_only n acts)"
| "reads_only_action n (GetProp s prop) = (s < n)"
| "reads_only_action n (InnerGet obj prop) = True"
| "reads_only_action n (If (Const b) t e) = (reads_only n t \<and> reads_only n e)"
| "reads_only_action n (If (ValueIs s v) t e) = (s < n \<and> reads_only n t \<and> reads_only n e)"
| "reads_only_action n a = False"

definition observers :: "callbacks \<Rightarrow> state \<Rightarrow> sid \<Rightarrow> bool" where
  "observers cbs st s =
     list_all (\<lambda>cb. reads_only (length (cells st)) (cbs cb)) (array_from (listeners_of st s))"

text \<open>The writes \<open>s.value = v\<close>, one after the other.\<close>

definition writes :: "(sid \<times> jsval) list \<Rightarrow> action list" where
  "writes ws = map (\<lambda>w. SetProp (fst w) ''value'' (snd w)) ws"

text \<open>A path that stays in plain objects, from the value to the object it ends at.\<close>

fun object_path :: "jsval \<Rightarrow> string list \<Rightarrow> bool" where
  "object_path v [] = isPlainObject v"
| "object_path v (p # ps) = (isPlainObject v \<and> object_path (child v p) ps)"

text \<open>No listener set of the state holds the callback.\<close>

definition unsubscribed :: "state \<Rightarrow> cbid \<Rightarrow> bool" where
  "unsubscribed st cb = list_all (\<lambda>c. \<not> set_has (listeners c) cb) (cells st)"

text \<open>
  The pass as the claims describe it: the listeners subscribed at the moment of the write
  are called one after the other, each once. It walks the entries that the set held when
  the write began, whatever happens to the set meanwhile, and spends the fuel as
  \<open>forEach\<close> does.
\<close>

fun pass_once :: "callbacks \<Rightarrow> nat \<Rightarrow> cbid jsset \<Rightarrow> state \<Rightarrow> state outcome" where
  "pass_once cbs f [] st = Done st"
| "pass_once cbs 0 (e # es) st = OutOfFuel"
| "pass_once cbs (Suc f) (None # es) st = pass_once cbs f es st"
| "pass_once cbs (Suc f) (Some cb # es) st =
     (case exec cbs f (cbs cb) (record_event (Invoked cb) st) of
        Done st' \<Rightarrow> pass_once cbs f es st'
      | Threw e st' \<Rightarrow> Threw e st'
      | OutOfFuel \<Rightarrow> OutOfFuel)"

text \<open>
  The callbacks called from inside a call that began in \<open>st\<close>, where the call itself is
  the next event of the trace, and ended in \<open>st'\<close>.
\<close>

definition calls_inside :: "state \<Rightarrow> state \<Rightarrow> cbid list" where
  "calls_inside st st' = invocations (drop (Suc (length (trace st))) (trace st'))"

text \<open>
  A pass over the entries \<open>es\<close> for signal \<open>s\<close> that nothing disturbs: each listener, called
  in its turn, returns, leaves the listener set and the value of \<open>s\<close> as they were, and
  calls none of the callbacks \<open>prot\<close> from inside its own call.
\<close>

fun undisturbed :: "callbacks \<Rightarrow> nat \<Rightarrow> sid \<Rightarrow> cbid list \<Rightarrow> cbid jsset \<Rightarrow> state \<Rightarrow> bool" where
  "undisturbed cbs f s prot [] st = True"
| "undisturbed cbs 0 s prot (e # es) st = False"
| "undisturbed cbs (Suc f) s prot (None # es) st = undisturbed cbs f s prot es st"
| "undisturbed cbs (Suc f) s prot (Some cb # es) st =
     (case exec cbs f (cbs cb) (record_event (Invoked cb) st) of
        Done st' \<Rightarrow>
          listeners_of st' s = listeners_of st s \<and> value_of st' s = value_of st s \<and>
          list_all (\<lambda>c. c \<notin> set prot) (calls_inside st st') \<and>
          undisturbed cbs f s prot es st'
      | Threw e st' \<Rightarrow> False
      | OutOfFuel \<Rightarrow> False)"

text \<open>For each signal, in the order of creation, whether the callback is one of its listeners.\<close>

definition subscriptions :: "state \<Rightarrow> cbid \<Rightarrow> bool list" where
  "subscriptions st cb = map (\<lambda>c. set_has (listeners c) cb) (cells st)"

text \<open>
  A sequence of writes \<open>s.value = v\<close> that leaves the effect \<open>cb\<close> alone: each written signal
  exists, the pass of each write is undisturbed and calls \<open>cb\<close> from inside no other call,
  and after each write \<open>cb\<close> is subscribed where it was before.
\<close>

fun calm_writes :: "callbacks \<Rightarrow> nat \<Rightarrow> cbid \<Rightarrow> (sid \<times> jsval) list \<Rightarrow> state \<Rightarrow> bool" where
  "calm_writes cbs f cb [] st = True"
| "calm_writes cbs f cb (w # ws) st =
     (fst w < length (cells st) \<and>
      undisturbed cbs f (fst w) (cb # array_from (listeners_of st (fst w)))
        (listeners_of st (fst w)) (store_value st (fst w) (snd w)) \<and>
      (case pass_once cbs f (listeners_of st (fst w)) (store_value st (fst w) (snd w)) of
         Done st' \<Rightarrow> subscriptions st' cb = subscriptions st cb \<and> calm_writes cbs f cb ws st'
       | Threw e st' \<Rightarrow> False
       | OutOfFuel \<Rightarrow> False))"

section \<open>Scenarios\<close>

text \<open>
  One signal created with the value 0, and two callbacks subscribed to it in the order
  0, 1.
\<close>

definition two_listeners :: state where
  "two_listeners = subscribe (subscribe (snd (createSignal init (Num 0))) 0 0) 0 1"

text \<open>Callbacks that do nothing.\<close>

definition idle_cbs :: callbacks where
  "idle_cbs cb = []"

text \<open>Callback 0 unsubscribes callback 1 from signal 0; the other callbacks do nothing.\<close>

definition unsub_cbs :: callbacks where
  "unsub_cbs cb = (if cb = 0 then [Unsubscribe 0 1] else [])"

text \<open>Callbacks that read signal 0.\<close>

definition reader_cbs :: callbacks where
  "reader_cbs cb = [GetProp 0 ''value'']"

text \<open>One signal, created with the value 0.\<close>

definition one_signal :: state where
  "one_signal = snd (createSignal init (Num 0))"

text \<open>Three signals \<open>a\<close>, \<open>b\<close> and \<open>c\<close>, created with the value 0 in this order.\<close>

definition three_signals :: state where
  "three_signals =
     snd (createSignal (snd (createSignal (snd (createSignal init (Num 0))) (Num 0))) (Num 0))"

text \<open>The callback \<open>() => { b.value; if (false) { a.value } else { c.value }; b.value }\<close>.\<close>

definition capture_cbs :: callbacks where
  "capture_cbs cb =
     [GetProp 1 ''value'', If (Const False) [GetProp 0 ''value''] [GetProp 2 ''value''],
      GetProp 1 ''value'']"

text \<open>The callback \<open>() => { a.value; throw ... }\<close>.\<close>

definition throw_cbs :: callbacks where
  "throw_cbs cb = [GetProp 0 ''value'', Throw]"

text \<open>The object \<open>{inner: {count: 0}, items: [1, 2]}\<close>.\<close>

definition object_value :: jsval where
  "object_value =
     Obj [(''inner'', Obj [(''count'', Num 0)]),
          (''items'', Arr [(''0'', Num 1), (''1'', Num 2)])]"

text \<open>The signal created from it, with callbacks 0 and 1 subscribed.\<close>

definition object_signal :: state where
  "object_signal = subscribe (subscribe (snd (createSignal init object_value)) 0 0) 0 1"

text \<open>
  Two signals; callbacks 0 and 1 are subscribed to the first, callback 2 to the second.
  Callback 0 writes to the second signal, callback 1 subscribes callback 3 to it,
  callback 2 reads it.
\<close>

definition busy_cbs :: callbacks where
  "busy_cbs cb =
     (if cb = 0 then [SetProp 1 ''value'' (Num 9)]
      else if cb = 1 then [Subscribe 1 3]
      else if cb = 2 then [GetProp 1 ''value'']
      else [])"

definition busy_signals :: state where
  "busy_signals =
     subscribe (subscribe (subscribe
       (snd (createSignal (snd (createSignal init (Num 0))) (Num 0))) 0 0) 0 1) 1 2"

text \<open>Callback 5 throws; callback 0 reads signal 0; the other callbacks do nothing.\<close>

definition thrower_cbs :: callbacks where
  "thrower_cbs cb =
     (if cb = 5 then [Throw] else if cb = 0 then [GetProp 0 ''value''] else [])"

text \<open>The callback \<open>() => { if (s.value === 1) { s.value = 2 } }\<close>, subscribed to \<open>s\<close>.\<close>

definition reentrant_cbs :: callbacks where
  "reentrant_cbs cb = [If (ValueIs 0 (Num 1)) [SetProp 0 ''value'' (Num 2)] []]"

text \<open>Callback 0 reads signal 0 and throws; the other callbacks do nothing.\<close>

definition stale_cbs :: callbacks where
  "stale_cbs cb = (if cb = 0 then [GetProp 0 ''value'', Throw] else [])"

text \<open>
  Callback 0 is \<open>() => { if (a.value === 0) { b.value } else { c.value } }\<close>; callback 4
  subscribes callback 6 to \<open>c\<close>, and is a listener of \<open>a\<close>; the other callbacks do
  nothing.
\<close>

definition effect_cbs :: callbacks where
  "effect_cbs cb =
     (if cb = 0 then [If (ValueIs 0 (Num 0)) [GetProp 1 ''value''] [GetProp 2 ''value'']]
      else if cb = 4 then [Subscribe 2 6]
      else [])"

definition effect_start :: state where
  "effect_start = subscribe three_signals 0 4"

text \<open>
  The state in which \<open>signalEffect\<close> leaves \<open>effect_start\<close> for callback 0, whose first run
  read \<open>a\<close> and \<open>b\<close>, and the writes \<open>a.value = 1\<close>, \<open>c.value = 9\<close>, \<open>b.value = 4\<close>.
\<close>

definition effect_ready :: state where
  "effect_ready =
     \<lparr>cells = [\<lparr>sig_value = Num 0, listeners = [Some 4, Some 0]\<rparr>,
               \<lparr>sig_value = Num 0, listeners = [Some 0]\<rparr>,
               \<lparr>sig_value = Num 0, listeners = []\<rparr>],
      store = [0, 1, 2], isRunningEffect = False, effectDependencies = [],
      trace = [Invoked 0, ReadValue 0, ReadValue 1]\<rparr>"

definition three_writes :: "(sid \<times> jsval) list" where
  "three_writes = [(0, Num 1), (2, Num 9), (1, Num 4)]"

section \<open>Sets and traces\<close>

lemma invocations_append [simp]: "invocations (xs @ ys) = invocations xs @ invocations ys"
  by (induction xs rule: invocations.induct) auto

lemma reads_append [simp]: "reads (xs @ ys) = reads xs @ reads ys"
  by (induction xs rule: reads.induct) auto

lemma array_from_append [simp]: "array_from (xs @ ys) = array_from xs @ array_from ys"
  by (induction xs rule: array_from.induct) auto

lemma set_array_from: "x \<in> set (array_from xs) \<longleftrightarrow> Some x \<in> set xs"
  by (induction xs rule: array_from.induct) auto

lemma array_from_set_add:
  "array_from (set_add xs x) =
     (if x \<in> set (array_from xs) then array_from xs else array_from xs @ [x])"
  by (simp add: set_add_def set_array_from)

lemma array_from_set_delete: "array_from (set_delete xs x) = removeAll x (array_from xs)"
  by (induction xs rule: array_from.induct) (auto simp: set_delete_def)

lemma length_set_delete [simp]: "length (set_delete xs x) = length xs"
  by (simp add: set_delete_def)

lemma distinct_set_add: "distinct (array_from xs) \<Longrightarrow> distinct (array_from (set_add xs x))"
  by (simp add: array_from_set_add)

lemma distinct_set_delete: "distinct (array_from xs) \<Longrightarrow> distinct (array_from (set_delete xs x))"
  by (simp add: array_from_set_delete distinct_removeAll)

lemma frame_refl [simp]: "frame st st"
  unfolding frame_def by (rule conjI | simp | rule exI [of _ "[]"])+

lemma frame_trans: "frame a b \<Longrightarrow> frame b c \<Longrightarrow> frame a c"
  unfolding frame_def by (elim conjE exE) (auto)

lemma store_listeners_fields [simp]:
  "length (cells (store_listeners st s ls)) = length (cells st)"
  "store (store_listeners st s ls) = store st"
  "isRunningEffect (store_listeners st s ls) = isRunningEffect st"
  "effectDependencies (store_listeners st s ls) = effectDependencies st"
  "trace (store_listeners st s ls) = trace st"
  by (simp_all add: store_listeners_def)

lemma store_value_fields [simp]:
  "length (cells (store_value st s v)) = length (cells st)"
  "store (store_value st s v) = store st"
  "isRunningEffect (store_value st s v) = isRunningEffect st"
  "effectDependencies (store_value st s v) = effectDependencies st"
  "trace (store_value st s v) = trace st"
  by (simp_all add: store_value_def)

lemma sets_ok_update:
  assumes "sets_ok st" "distinct (array_from ls)"
  shows "sets_ok (store_listeners st s ls)"
proof (cases "s < length (cells st)")
  case True
  with assms show ?thesis
    unfolding sets_ok_def store_listeners_def
    by (auto simp: list_all_length nth_list_update)
next
  case False
  with assms show ?thesis
    unfolding sets_ok_def store_listeners_def by (simp add: list_update_beyond)
qed

lemma sets_ok_listeners: "sets_ok st \<Longrightarrow> distinct (array_from (listeners_of st s))"
  unfolding sets_ok_def listeners_of_def by (auto simp: list_all_length)

lemma sets_ok_store_value: "sets_ok st \<Longrightarrow> sets_ok (store_value st s v)"
proof (cases "s < length (cells st)")
  case True
  assume "sets_ok st"
  with True show ?thesis
    unfolding sets_ok_def store_value_def
    by (auto simp: list_all_length nth_list_update)
next
  case False
  assume "sets_ok st"
  with False show ?thesis
    unfolding sets_ok_def store_value_def by (simp add: list_update_beyond)
qed

lemma frame_store_value [simp]: "frame st (store_value st s v)"
  unfolding frame_def by (simp add: sets_ok_store_value)

lemma frame_subscribe [simp]: "frame st (subscribe st s cb)"
  unfolding frame_def subscribe_def
  by (simp add: sets_ok_update sets_ok_listeners distinct_set_add)

lemma frame_unsubscribe [simp]: "frame st (unsubscribe st s cb)"
  unfolding frame_def unsubscribe_def
  by (simp add: sets_ok_update sets_ok_listeners distinct_set_delete)

lemma frame_record_invoked [simp]: "frame st (record_event (Invoked cb) st)"
  unfolding frame_def record_event_def sets_ok_def by simp

lemma frame_get_trap [simp]: "frame st (snd (get_trap st s prop))"
  unfolding frame_def get_trap_def record_event_def sets_ok_def by (simp add: Let_def)

lemma get_trap_other: "prop \<noteq> ''value'' \<Longrightarrow> get_trap st s prop = (target_get st s prop, st)"
  by (simp add: get_trap_def)

lemma get_trap_subscribe [simp]: "snd (get_trap st s ''subscribe'') = st"
  by (simp add: get_trap_other)

lemma frame_exec:
  "ends_in (exec cbs f as st) st' \<Longrightarrow> frame st st'"
  "ends_in (step cbs f a st) st' \<Longrightarrow> frame st st'"
  "ends_in2 (set_trap cbs f s prop v st) st' \<Longrightarrow> frame st st'"
  "ends_in2 (proxy_set_trap cbs f c s path prop v st) st' \<Longrightarrow> frame st st'"
  "ends_in (notifyListeners cbs f s st) st' \<Longrightarrow> frame st st'"
  "ends_in (forEach cbs f s i st) st' \<Longrightarrow> frame st st'"
proof (induction cbs f "as" st and cbs f a st and cbs f s "prop" v st
    and cbs f c s path "prop" v st and cbs f s st and cbs f s i st
    arbitrary: st' and st' and st' and st' and st' and st'
    rule: exec_step_set_trap_proxy_set_trap_notifyListeners_forEach.induct)
  case (1 cbs f st)
  then show ?case by simp
next
  case (2 cbs f a acts st)
  then show ?case
    by (auto split: outcome.splits intro: frame_trans)
next
  case (3 cbs f s pr st)
  then show ?case by (auto split: if_splits)
next
  case (4 cbs f s pr v st)
  then show ?case by (auto split: if_splits outcome.splits prod.splits)
next
  case (5 cbs f s path pr v st)
  show ?case
  proof (cases "s < length (cells st)")
    case False
    with 5 show ?thesis by simp
  next
    case True
    obtain r st1 where g: "get_trap st s ''value'' = (r, st1)" by (cases "get_trap st s ''value''")
    then have f1: "frame st st1" by (metis frame_get_trap snd_conv)
    show ?thesis
    proof (cases "walk (payload r) path")
      case (Inl e)
      with 5 True g f1 show ?thesis by simp
    next
      case (Inr u)
      show ?thesis
      proof (cases u)
        case (Prox c fs)
        with "5.IH" [OF True g [symmetric] Inr Prox] "5.prems" True g Inr f1 show ?thesis
          by (auto split: outcome.splits intro: frame_trans)
      qed (use 5 True g Inr f1 in \<open>auto intro: frame_trans [OF f1]\<close>)
    qed
  qed
next
  case (10 cbs f b t e st)
  then show ?case by (auto split: if_splits)
next
  case (11 cbs f s v t e st)
  show ?case
  proof (cases "s < length (cells st)")
    case False
    with 11 show ?thesis by simp
  next
    case True
    obtain r st1 where g: "get_trap st s ''value'' = (r, st1)" by (cases "get_trap st s ''value''")
    then have f1: "frame st st1" by (metis frame_get_trap snd_conv)
    from 11 True g show ?thesis
      by (auto split: if_splits intro: frame_trans [OF f1])
  qed
next
  case (12 cbs f s pr newValue st)
  then show ?case
    by (auto split: if_splits outcome.splits intro: frame_trans [OF frame_store_value])
next
  case (13 cbs f callback s path pr v st)
  then show ?case
    by (auto split: if_splits outcome.splits intro: frame_trans [OF frame_store_value])
next
  case (16 cbs f s i st)
  show ?case
  proof (cases "i < length (listeners_of st s)")
    case False
    with "16.prems" show ?thesis by simp
  next
    case True
    show ?thesis
    proof (cases "listeners_of st s ! i")
      case None
      with "16.IH"(1) [OF True None] "16.prems" True show ?thesis by simp
    next
      case (Some cb)
      let ?st0 = "record_event (Invoked cb) st"
      have f0: "frame st ?st0" by simp
      show ?thesis
      proof (cases "exec cbs f (cbs cb) ?st0")
        case OutOfFuel
        with "16.prems" True Some show ?thesis by simp
      next
        case (Threw e st1)
        with "16.prems" True Some have "st1 = st'" by simp
        with "16.IH"(2) [OF True Some, of st'] Threw have "frame ?st0 st'" by simp
        with f0 show ?thesis by (rule frame_trans)
      next
        case (Done st1)
        with "16.IH"(2) [OF True Some, of st1] have f1: "frame ?st0 st1" by simp
        from "16.prems" True Some Done have "ends_in (forEach cbs f s (Suc i) st1) st'"
          by simp
        with "16.IH"(3) [OF True Some Done] have "frame st1 st'" by simp
        with f0 f1 show ?thesis by (blast intro: frame_trans)
      qed
    qed
  qed
qed (auto split: if_splits)

section \<open>Callbacks that only observe\<close>

lemma listeners_of_cells: "cells st' = cells st \<Longrightarrow> listeners_of st' s = listeners_of st s"
  by (simp add: listeners_of_def)

lemma value_of_cells: "cells st' = cells st \<Longrightarrow> value_of st' s = value_of st s"
  by (simp add: value_of_def)

lemma get_trap_cells [simp]: "cells (snd (get_trap st s prop)) = cells st"
  by (simp add: get_trap_def record_event_def Let_def)

lemma get_trap_invocations [simp]:
  "invocations (trace (snd (get_trap st s prop))) = invocations (trace st)"
  by (simp add: get_trap_def record_event_def Let_def)

lemma get_trap_payload: "payload (fst (get_trap st s ''value'')) = value_of st s"
  by (simp add: get_trap_def record_event_def Let_def target_get_def value_of_def)

lemma record_event_fields [simp]:
  "cells (record_event e st) = cells st"
  "trace (record_event e st) = trace st @ [e]"
  "isRunningEffect (record_event e st) = isRunningEffect st"
  "effectDependencies (record_event e st) = effectDependencies st"
  by (simp_all add: record_event_def)

lemma reads_only_exec:
  "reads_only n acts \<Longrightarrow> n \<le> length (cells st) \<Longrightarrow>
     \<exists>st'. exec cbs f acts st = Done st' \<and> cells st' = cells st \<and>
           invocations (trace st') = invocations (trace st)"
  "reads_only_action n a \<Longrightarrow> n \<le> length (cells st) \<Longrightarrow>
     \<exists>st'. step cbs f a st = Done st' \<and> cells st' = cells st \<and>
           invocations (trace st') = invocations (trace st)"
proof (induction n acts and n a arbitrary: st and st rule: reads_only_reads_only_action.induct)
  case (2 n a acts)
  from "2.prems" have ra: "reads_only_action n a" and rs: "reads_only n acts" by simp_all
  from "2.IH"(1) [OF ra "2.prems"(2)] obtain st1 where s1: "step cbs f a st = Done st1"
      "cells st1 = cells st" "invocations (trace st1) = invocations (trace st)"
    by blast
  from s1(2) "2.prems"(2) have "n \<le> length (cells st1)" by simp
  from "2.IH"(2) [OF rs this] obtain st2 where "exec cbs f acts st1 = Done st2"
      "cells st2 = cells st1" "invocations (trace st2) = invocations (trace st1)"
    by blast
  with s1 show ?case by simp
next
  case (6 n s v t e)
  let ?st1 = "snd (get_trap st s ''value'')"
  have c: "n \<le> length (cells ?st1)" using 6 by simp
  from 6 have rt: "reads_only n t" and re: "reads_only n e" and sv: "s < length (cells st)"
    by auto
  show ?case
  proof (cases "strict_eq (payload (fst (get_trap st s ''value''))) v")
    case True
    from "6.IH"(1) [OF rt c] obtain st' where "exec cbs f t ?st1 = Done st'"
        "cells st' = cells ?st1" "invocations (trace st') = invocations (trace ?st1)"
      by blast
    with True sv show ?thesis by (simp add: split_beta)
  next
    case False
    from "6.IH"(2) [OF re c] obtain st' where "exec cbs f e ?st1 = Done st'"
        "cells st' = cells ?st1" "invocations (trace st') = invocations (trace ?st1)"
      by blast
    with False sv show ?thesis by (simp add: split_beta)
  qed
qed auto

lemma forEach_observers:
  assumes "observers cbs st s" and "length (listeners_of st s) \<le> i + f"
  shows "\<exists>st'. forEach cbs f s i st = Done st' \<and> cells st' = cells st \<and>
           invocations (trace st') =
             invocations (trace st) @ array_from (drop i (listeners_of st s))"
  using assms
proof (induction f arbitrary: i st)
  case 0
  then show ?case by simp
next
  case (Suc f)
  show ?case
  proof (cases "i < length (listeners_of st s)")
    case False
    then show ?thesis by simp
  next
    case True
    then have d: "array_from (drop i (listeners_of st s)) =
        array_from (listeners_of st s ! i # drop (Suc i) (listeners_of st s))"
      by (simp add: Cons_nth_drop_Suc)
    show ?thesis
    proof (cases "listeners_of st s ! i")
      case None
      have dn: "array_from (drop i (listeners_of st s)) =
          array_from (drop (Suc i) (listeners_of st s))"
        unfolding d None by simp
      from Suc.IH [of st "Suc i"] Suc.prems obtain st' where
        "forEach cbs f s (Suc i) st = Done st'" "cells st' = cells st"
        "invocations (trace st') =
           invocations (trace st) @ array_from (drop (Suc i) (listeners_of st s))"
        by auto
      with True None dn show ?thesis by simp
    next
      case (Some cb)
      have ds: "array_from (drop i (listeners_of st s)) =
          cb # array_from (drop (Suc i) (listeners_of st s))"
        unfolding d Some by simp
      let ?st0 = "record_event (Invoked cb) st"
      from True Some have "Some cb \<in> set (listeners_of st s)"
        by (metis nth_mem)
      then have "cb \<in> set (array_from (listeners_of st s))"
        by (simp add: set_array_from)
      with Suc.prems(1) have "reads_only (length (cells ?st0)) (cbs cb)"
        by (simp add: observers_def list_all_iff)
      from reads_only_exec(1) [OF this, of ?st0 cbs f] obtain st1 where
        e: "exec cbs f (cbs cb) ?st0 = Done st1" "cells st1 = cells st"
        "invocations (trace st1) = invocations (trace st) @ [cb]"
        by auto
      from e(2) have l: "listeners_of st1 s = listeners_of st s"
        by (rule listeners_of_cells)
      have "observers cbs st1 s"
        using Suc.prems(1) e(2) l by (simp add: observers_def)
      from Suc.IH [OF this, of "Suc i"] Suc.prems(2) l obtain st' where
        "forEach cbs f s (Suc i) st1 = Done st'" "cells st' = cells st1"
        "invocations (trace st') =
           invocations (trace st1) @ array_from (drop (Suc i) (listeners_of st1 s))"
        by auto
      with True Some ds e l show ?thesis by simp
    qed
  qed
qed

lemma store_value_listeners [simp]: "listeners_of (store_value st s v) s' = listeners_of st s'"
  by (cases "s < length (cells st)")
    (auto simp: listeners_of_def store_value_def nth_list_update list_update_beyond)

lemma store_value_value:
  "s < length (cells st) \<Longrightarrow> value_of (store_value st s v) s = v"
  by (simp add: value_of_def store_value_def)

lemma observers_store_value [simp]: "observers cbs (store_value st s v) s' = observers cbs st s'"
  by (simp add: observers_def)

lemma write_observers:
  assumes "observers cbs st s" and "length (listeners_of st s) \<le> f"
  shows "\<exists>st'. set_trap cbs f s ''value'' v st = Done (True, st') \<and>
           cells st' = cells (store_value st s v) \<and>
           invocations (trace st') = invocations (trace st) @ array_from (listeners_of st s)"
proof -
  from forEach_observers [of cbs "store_value st s v" s 0 f] assms
  obtain st' where "forEach cbs f s 0 (store_value st s v) = Done st'"
    "cells st' = cells (store_value st s v)"
    "invocations (trace st') = invocations (trace st) @ array_from (listeners_of st s)"
    by auto
  then show ?thesis by simp
qed

section \<open>Subscribing and creating\<close>

lemma subscribe_listeners:
  "listeners_of (subscribe st s cb) s' =
     (if s' = s \<and> s < length (cells st) then set_add (listeners_of st s) cb
      else listeners_of st s')"
  by (cases "s < length (cells st)")
    (auto simp: subscribe_def store_listeners_def listeners_of_def nth_list_update
      list_update_beyond)

lemma unsubscribe_listeners:
  "listeners_of (unsubscribe st s cb) s' =
     (if s' = s \<and> s < length (cells st) then set_delete (listeners_of st s) cb
      else listeners_of st s')"
  by (cases "s < length (cells st)")
    (auto simp: unsubscribe_def store_listeners_def listeners_of_def nth_list_update
      list_update_beyond)

lemma store_listeners_value [simp]: "value_of (store_listeners st s ls) s' = value_of st s'"
  by (cases "s < length (cells st)")
    (auto simp: store_listeners_def value_of_def nth_list_update list_update_beyond)

lemma subscribe_fields [simp]:
  "length (cells (subscribe st s cb)) = length (cells st)"
  "trace (subscribe st s cb) = trace st"
  "value_of (subscribe st s cb) s' = value_of st s'"
  "isRunningEffect (subscribe st s cb) = isRunningEffect st"
  "effectDependencies (subscribe st s cb) = effectDependencies st"
  by (simp_all add: subscribe_def)

lemma unsubscribe_fields [simp]:
  "length (cells (unsubscribe st s cb)) = length (cells st)"
  "trace (unsubscribe st s cb) = trace st"
  "value_of (unsubscribe st s cb) s' = value_of st s'"
  "isRunningEffect (unsubscribe st s cb) = isRunningEffect st"
  "effectDependencies (unsubscribe st s cb) = effectDependencies st"
  by (simp_all add: unsubscribe_def)

lemma createSignal_fields:
  assumes "createSignal st v = (s, st')"
  shows "s = length (cells st)" and "length (cells st') = Suc (length (cells st))"
    and "listeners_of st' s = []" and "trace st' = trace st"
    and "value_of st' s = (if isPlainObject v then recursiveProxy v s else v)"
  using assms by (auto simp: createSignal_def Let_def listeners_of_def value_of_def)

lemma frame_trace: "frame st st' \<Longrightarrow> \<exists>evs. trace st' = trace st @ evs"
  by (auto simp: frame_def)

lemma count_list_distinct: "distinct xs \<Longrightarrow> x \<in> set xs \<Longrightarrow> count_list xs x = 1"
  by (induction xs) auto

lemma sets_ok_init: "sets_ok init"
  by (simp add: sets_ok_def init_def)

lemma sets_ok_createSignal: "sets_ok st \<Longrightarrow> sets_ok (snd (createSignal st v))"
  by (simp add: sets_ok_def createSignal_def Let_def)

lemma sets_ok_subscribe: "sets_ok st \<Longrightarrow> sets_ok (subscribe st s cb)"
  using frame_subscribe [of st s cb] by (simp add: frame_def)

lemma sets_ok_unsubscribe: "sets_ok st \<Longrightarrow> sets_ok (unsubscribe st s cb)"
  using frame_unsubscribe [of st s cb] by (simp add: frame_def)

lemma sets_ok_exec: "sets_ok st \<Longrightarrow> ends_in (exec cbs f acts st) st' \<Longrightarrow> sets_ok st'"
  using frame_exec(1) [of cbs f acts st st'] by (simp add: frame_def)

section \<open>The working set of the recorder\<close>

lemma filter_removeAll: "filter P (removeAll r zs) = filter (\<lambda>x. x \<noteq> r \<and> P x) zs"
  by (induction zs) auto

lemma array_from_foldl_set_add:
  "array_from (foldl set_add xs rs) =
     array_from xs @ filter (\<lambda>x. x \<notin> set (array_from xs)) (dedup rs)"
proof (induction rs arbitrary: xs)
  case Nil
  then show ?case by simp
next
  case (Cons r rs)
  show ?case
  proof (cases "r \<in> set (array_from xs)")
    case True
    then have "filter (\<lambda>x. x \<noteq> r \<and> x \<notin> set (array_from xs)) (dedup rs) =
        filter (\<lambda>x. x \<notin> set (array_from xs)) (dedup rs)"
      by (intro filter_cong) auto
    with True Cons [of "set_add xs r"] show ?thesis
      by (simp add: array_from_set_add filter_removeAll)
  next
    case False
    have "filter (\<lambda>x. x \<noteq> r \<and> x \<notin> set (array_from xs)) (dedup rs) =
        filter (\<lambda>x. x \<notin> set (array_from xs) \<and> x \<noteq> r) (dedup rs)"
      by (intro filter_cong) auto
    with False Cons [of "set_add xs r"] show ?thesis
      by (simp add: array_from_set_add filter_removeAll)
  qed
qed

lemma array_from_foldl_set_add_empty: "array_from (foldl set_add [] rs) = dedup rs"
  by (simp add: array_from_foldl_set_add)

lemma set_dedup [simp]: "set (dedup xs) = set xs"
  by (induction xs) auto

lemma set_reads: "s \<in> set (reads evs) \<longleftrightarrow> ReadValue s \<in> set evs"
  by (induction evs rule: reads.induct) auto

lemma set_has_foldl_set_add:
  "set_has (foldl set_add xs rs) x \<longleftrightarrow> set_has xs x \<or> x \<in> set rs"
proof -
  have "set_has (foldl set_add xs rs) x \<longleftrightarrow> x \<in> set (array_from (foldl set_add xs rs))"
    by (simp add: set_has_def set_array_from)
  also have "\<dots> \<longleftrightarrow> x \<in> set (array_from xs) \<or> x \<in> set rs"
    by (auto simp: array_from_foldl_set_add)
  finally show ?thesis by (simp add: set_has_def set_array_from)
qed

lemma frame_recorder:
  "frame st st' \<Longrightarrow> isRunningEffect st \<Longrightarrow>
     isRunningEffect st' \<and>
     (\<exists>evs. trace st' = trace st @ evs \<and>
        effectDependencies st' = foldl set_add (effectDependencies st) (reads evs))"
  by (auto simp: frame_def)

section \<open>Sequences of writes\<close>

lemma observers_all:
  "\<forall>c. reads_only (length (cells st)) (cbs c) \<Longrightarrow> observers cbs st s"
  by (simp add: observers_def list_all_iff)

lemma step_write_observers:
  assumes "observers cbs st s" and "length (listeners_of st s) \<le> f"
    and "s < length (cells st)"
  shows "\<exists>st'. step cbs f (SetProp s ''value'' v) st = Done st' \<and>
           cells st' = cells (store_value st s v) \<and>
           invocations (trace st') = invocations (trace st) @ array_from (listeners_of st s)"
proof -
  from write_observers [OF assms(1,2), of v] obtain st' where
    "set_trap cbs f s ''value'' v st = Done (True, st')"
    "cells st' = cells (store_value st s v)"
    "invocations (trace st') = invocations (trace st) @ array_from (listeners_of st s)"
    by blast
  with assms(3) show ?thesis by simp
qed

lemma writes_observers:
  assumes "\<forall>c. reads_only (length (cells st)) (cbs c)"
    and "\<forall>w \<in> set ws. fst w < length (cells st) \<and> length (listeners_of st (fst w)) \<le> f"
  shows "\<exists>st'. exec cbs f (writes ws) st = Done st' \<and>
           length (cells st') = length (cells st) \<and>
           (\<forall>s. listeners_of st' s = listeners_of st s) \<and>
           invocations (trace st') =
             invocations (trace st) @ concat (map (\<lambda>w. array_from (listeners_of st (fst w))) ws)"
  using assms
proof (induction ws arbitrary: st)
  case Nil
  then show ?case by (simp add: writes_def)
next
  case (Cons w ws)
  obtain s v where w: "w = (s, v)" by (cases w)
  from Cons.prems w have sv: "s < length (cells st)"
    and fu: "length (listeners_of st s) \<le> f" by simp_all
  have "observers cbs st s" using Cons.prems(1) by (rule observers_all)
  from step_write_observers [OF this fu sv, of v] obtain st1 where
    s1: "step cbs f (SetProp s ''value'' v) st = Done st1"
    and c1: "cells st1 = cells (store_value st s v)"
    and i1: "invocations (trace st1) = invocations (trace st) @ array_from (listeners_of st s)"
    by blast
  from c1 have n1: "length (cells st1) = length (cells st)" by simp
  have l1: "listeners_of st1 s' = listeners_of st s'" for s'
    using listeners_of_cells [OF c1, of s'] by simp
  have a: "\<forall>c. reads_only (length (cells st1)) (cbs c)"
    using Cons.prems(1) n1 by simp
  have b: "\<forall>w \<in> set ws. fst w < length (cells st1) \<and> length (listeners_of st1 (fst w)) \<le> f"
    using Cons.prems(2) n1 l1 by simp
  from Cons.IH [OF a b] obtain st' where
    "exec cbs f (writes ws) st1 = Done st'" "length (cells st') = length (cells st1)"
    "\<forall>s. listeners_of st' s = listeners_of st1 s"
    "invocations (trace st') =
       invocations (trace st1) @ concat (map (\<lambda>w. array_from (listeners_of st1 (fst w))) ws)"
    by blast
  with s1 n1 l1 i1 w show ?case by (simp add: writes_def)
qed

lemma set_delete_twice: "set_delete (set_delete xs x) x = set_delete xs x"
  by (simp add: set_delete_def)

lemma unsubscribe_twice: "unsubscribe (unsubscribe st s cb) s cb = unsubscribe st s cb"
proof (cases "s < length (cells st)")
  case True
  then show ?thesis
    by (simp add: unsubscribe_def store_listeners_def listeners_of_def set_delete_twice)
next
  case False
  then show ?thesis
    by (simp add: unsubscribe_def store_listeners_def listeners_of_def list_update_beyond)
qed

section \<open>Subscribing an effect\<close>

lemma set_add_twice: "set_add (set_add xs x) x = set_add xs x"
  by (simp add: set_add_def)

lemma subscribe_all_result:
  "fst (subscribe_all st deps cb) = map (\<lambda>s. (s, cb)) deps \<and>
   length (cells (snd (subscribe_all st deps cb))) = length (cells st) \<and>
   trace (snd (subscribe_all st deps cb)) = trace st \<and>
   (\<forall>s. listeners_of (snd (subscribe_all st deps cb)) s =
      (if s \<in> set deps \<and> s < length (cells st) then set_add (listeners_of st s) cb
       else listeners_of st s))"
proof (induction deps arbitrary: st)
  case Nil
  then show ?case by simp
next
  case (Cons d ds)
  from Cons [of "subscribe st d cb"] show ?case
    by (auto simp: split_beta subscribe_listeners set_add_twice)
qed

lemma unsubscribed_listeners: "unsubscribed st cb \<Longrightarrow> \<not> set_has (listeners_of st s) cb"
  by (auto simp: unsubscribed_def listeners_of_def list_all_length set_has_def)

lemma count_list_absent: "x \<notin> set xs \<Longrightarrow> count_list xs x = 0"
  by (induction xs) auto

section \<open>Wrapped values\<close>

lemma get_field_parsed:
  "get_field (parsed fs c) k =
     (if isPlainObject (get_field fs k) then recursiveProxy (get_field fs k) c
      else get_field fs k)"
  by (induction fs) auto

lemma recursiveProxy_plain:
  "isPlainObject v \<Longrightarrow> \<exists>fs. recursiveProxy v c = Prox c fs"
  by (cases v) auto

lemma child_recursiveProxy:
  "isPlainObject v \<Longrightarrow>
     child (recursiveProxy v c) k =
       (if isPlainObject (child v k) then recursiveProxy (child v k) c else child v k)"
  by (cases v) (auto simp: get_field_parsed)

lemma js_get_plain: "isPlainObject v \<Longrightarrow> js_get v k = Inr (child v k)"
  by (cases v) auto

lemma isPlainObject_recursiveProxy: "isPlainObject v \<Longrightarrow> isPlainObject (recursiveProxy v c)"
  by (cases v) auto

lemma object_path_plain: "object_path v path \<Longrightarrow> isPlainObject v"
  by (cases path) auto

lemma walk_wrapped_object:
  "object_path v path \<Longrightarrow> \<exists>fs. walk (recursiveProxy v c) path = Inr (Prox c fs)"
proof (induction path arbitrary: v)
  case Nil
  then show ?case by (simp add: recursiveProxy_plain)
next
  case (Cons p ps)
  then have pv: "isPlainObject v" and op: "object_path (child v p) ps" by simp_all
  from op have pc: "isPlainObject (child v p)" by (rule object_path_plain)
  from pv have "js_get (recursiveProxy v c) p = Inr (child (recursiveProxy v c) p)"
    by (simp add: js_get_plain isPlainObject_recursiveProxy)
  also have "child (recursiveProxy v c) p = recursiveProxy (child v p) c"
    using pv pc by (simp add: child_recursiveProxy)
  finally show ?case using Cons.IH [OF op] by simp
qed

lemma walk_wrapped_array:
  "walk v path = Inr (Arr fs) \<Longrightarrow> walk (recursiveProxy v c) path = Inr (Arr fs)"
proof (induction path arbitrary: v)
  case Nil
  then show ?case by simp
next
  case (Cons p ps)
  show ?case
  proof (cases "isPlainObject v")
    case False
    with Cons.prems show ?thesis by (cases v) auto
  next
    case True
    then have g: "js_get v p = Inr (child v p)" by (rule js_get_plain)
    with Cons.prems have w: "walk (child v p) ps = Inr (Arr fs)" by simp
    from True have "js_get (recursiveProxy v c) p = Inr (child (recursiveProxy v c) p)"
      by (simp add: js_get_plain isPlainObject_recursiveProxy)
    moreover have "walk (child (recursiveProxy v c) p) ps = Inr (Arr fs)"
      using True w Cons.IH [OF w] by (simp add: child_recursiveProxy)
    ultimately show ?thesis by simp
  qed
qed

lemma get_trap_value_of [simp]: "value_of (snd (get_trap st s prop)) s' = value_of st s'"
  by (simp add: value_of_def)

lemma get_trap_listeners [simp]: "listeners_of (snd (get_trap st s prop)) s' = listeners_of st s'"
  by (simp add: listeners_of_def)

lemma get_trap_length: "length (cells (snd (get_trap st s prop))) = length (cells st)"
  by simp

lemma nested_step_proxy:
  assumes "s < length (cells st)" and "walk (value_of st s) path = Inr (Prox c fs)"
  shows "step cbs f (SetNested s path k x) st =
     notifyListeners cbs f c
       (store_value (snd (get_trap st s ''value'')) s (assign_at (value_of st s) path k x))"
  using assms
  by (cases "forEach cbs f c 0
        (store_value (snd (get_trap st s ''value'')) s (assign_at (value_of st s) path k x))")
    (simp_all add: split_beta get_trap_payload)

lemma nested_step_plain:
  assumes "s < length (cells st)"
    and "walk (value_of st s) path = Inr (Arr fs) \<or> walk (value_of st s) path = Inr (Obj fs)"
  shows "step cbs f (SetNested s path k x) st =
     Done (store_value (snd (get_trap st s ''value'')) s (assign_at (value_of st s) path k x))"
  using assms by (auto simp: split_beta get_trap_payload)

lemma top_step:
  "s < length (cells st) \<Longrightarrow>
     step cbs f (SetProp s ''value'' y) st = notifyListeners cbs f s (store_value st s y)"
  by (cases "forEach cbs f s 0 (store_value st s y)") simp_all

lemma get_field_set_field: "get_field (set_field fs k x) k = x"
  by (induction fs) auto

lemma notify_observers:
  assumes "observers cbs st s" and "length (listeners_of st s) \<le> f"
  shows "\<exists>st'. notifyListeners cbs f s st = Done st' \<and> cells st' = cells st \<and>
           invocations (trace st') = invocations (trace st) @ array_from (listeners_of st s)"
  using forEach_observers [OF assms(1), of 0 f] assms(2) by simp

lemma nested_object_write:
  assumes "s < length (cells st)" and "value_of st s = recursiveProxy v s"
    and "object_path v path"
  shows "step cbs f (SetNested s path k x) st =
           notifyListeners cbs f s
             (store_value (snd (get_trap st s ''value'')) s
                (assign_at (value_of st s) path k x)) \<and>
         listeners_of (store_value (snd (get_trap st s ''value'')) s
                         (assign_at (value_of st s) path k x)) s =
           listeners_of (store_value st s y) s \<and>
         (observers cbs st s \<and> length (listeners_of st s) \<le> f \<longrightarrow>
            (\<exists>st1 st2. step cbs f (SetNested s path k x) st = Done st1 \<and>
               step cbs f (SetProp s ''value'' y) st = Done st2 \<and>
               invocations (trace st1) = invocations (trace st) @ array_from (listeners_of st s) \<and>
               invocations (trace st2) = invocations (trace st) @ array_from (listeners_of st s)))"
proof -
  let ?n = "store_value (snd (get_trap st s ''value'')) s (assign_at (value_of st s) path k x)"
  let ?t = "store_value st s y"
  from walk_wrapped_object [OF assms(3), of s] assms(2) obtain gs where
    "walk (value_of st s) path = Inr (Prox s gs)" by auto
  with assms(1) have n: "step cbs f (SetNested s path k x) st = notifyListeners cbs f s ?n"
    by (rule nested_step_proxy)
  from assms(1) have t: "step cbs f (SetProp s ''value'' y) st = notifyListeners cbs f s ?t"
    by (rule top_step)
  have l: "listeners_of ?n s = listeners_of ?t s" by simp
  have o: "observers cbs st s \<and> length (listeners_of st s) \<le> f \<longrightarrow>
      (\<exists>st1 st2. step cbs f (SetNested s path k x) st = Done st1 \<and>
         step cbs f (SetProp s ''value'' y) st = Done st2 \<and>
         invocations (trace st1) = invocations (trace st) @ array_from (listeners_of st s) \<and>
         invocations (trace st2) = invocations (trace st) @ array_from (listeners_of st s))"
  proof
    assume h: "observers cbs st s \<and> length (listeners_of st s) \<le> f"
    then have "observers cbs ?n s" and "length (listeners_of ?n s) \<le> f"
      by (simp_all add: observers_def)
    from notify_observers [OF this] obtain st1 where
      "notifyListeners cbs f s ?n = Done st1"
      "invocations (trace st1) = invocations (trace ?n) @ array_from (listeners_of ?n s)"
      by blast
    moreover from h have "observers cbs ?t s" and "length (listeners_of ?t s) \<le> f"
      by simp_all
    from notify_observers [OF this] obtain st2 where
      "notifyListeners cbs f s ?t = Done st2"
      "invocations (trace st2) = invocations (trace ?t) @ array_from (listeners_of ?t s)"
      by blast
    ultimately show "\<exists>st1 st2. step cbs f (SetNested s path k x) st = Done st1 \<and>
         step cbs f (SetProp s ''value'' y) st = Done st2 \<and>
         invocations (trace st1) = invocations (trace st) @ array_from (listeners_of st s) \<and>
         invocations (trace st2) = invocations (trace st) @ array_from (listeners_of st s)"
      using n t by simp
  qed
  from n l o show ?thesis by blast
qed

lemma nested_array_write:
  assumes "s < length (cells st)" and "value_of st s = recursiveProxy v s"
    and "walk v apath = Inr (Arr fs)"
  shows "step cbs f (SetNested s apath k x) st =
           Done (store_value (snd (get_trap st s ''value'')) s
                   (assign_at (value_of st s) apath k x)) \<and>
         invocations (trace (store_value (snd (get_trap st s ''value'')) s
                               (assign_at (value_of st s) apath k x))) =
           invocations (trace st)"
proof -
  from walk_wrapped_array [OF assms(3), of s] assms(2)
  have "walk (value_of st s) apath = Inr (Arr fs)" by simp
  then have "walk (value_of st s) apath = Inr (Arr fs) \<or>
      walk (value_of st s) apath = Inr (Obj fs)" by simp
  with assms(1) have "step cbs f (SetNested s apath k x) st =
      Done (store_value (snd (get_trap st s ''value'')) s
              (assign_at (value_of st s) apath k x))"
    by (rule nested_step_plain)
  then show ?thesis by simp
qed

section \<open>A pass that nothing disturbs\<close>

lemma exec_trace:
  assumes "exec cbs f acts st = Done st'"
  shows "\<exists>evs. trace st' = trace st @ evs"
proof -
  from assms have "ends_in (exec cbs f acts st) st'" by simp
  then have "frame st st'" by (rule frame_exec(1))
  then show ?thesis by (rule frame_trace)
qed

lemma calls_inside_call:
  assumes "exec cbs f acts (record_event (Invoked cb) st) = Done st'"
  shows "\<exists>bevs. trace st' = trace st @ Invoked cb # bevs \<and>
           calls_inside st st' = invocations bevs"
proof -
  from exec_trace [OF assms] obtain bevs where
    "trace st' = trace (record_event (Invoked cb) st) @ bevs" by blast
  then have "trace st' = trace st @ Invoked cb # bevs" by simp
  then show ?thesis by (simp add: calls_inside_def)
qed

lemma count_list_none: "list_all (\<lambda>c. c \<notin> set prot) xs \<Longrightarrow> c \<in> set prot \<Longrightarrow> count_list xs c = 0"
  by (induction xs) auto

lemma pass_once_undisturbed:
  assumes "undisturbed cbs f s prot es st"
  shows "\<exists>st' evs. pass_once cbs f es st = Done st' \<and>
           listeners_of st' s = listeners_of st s \<and> value_of st' s = value_of st s \<and>
           trace st' = trace st @ evs \<and>
           (\<forall>c \<in> set prot. count_list (invocations evs) c = count_list (array_from es) c)"
  using assms
proof (induction cbs f s prot es st rule: undisturbed.induct)
  case (1 cbs f s prot st)
  then show ?case by simp
next
  case (2 cbs s prot e es st)
  then show ?case by simp
next
  case (3 cbs f s prot es st)
  then show ?case by simp
next
  case (4 cbs f s prot cb es st)
  from "4.prems" obtain st1 where
    e: "exec cbs f (cbs cb) (record_event (Invoked cb) st) = Done st1"
    by (auto split: outcome.splits)
  with "4.prems" have l: "listeners_of st1 s = listeners_of st s"
    and v: "value_of st1 s = value_of st s"
    and q: "list_all (\<lambda>c. c \<notin> set prot) (calls_inside st st1)"
    and u: "undisturbed cbs f s prot es st1"
    by simp_all
  from calls_inside_call [OF e] obtain bevs where
    t1: "trace st1 = trace st @ Invoked cb # bevs"
    and ci: "calls_inside st st1 = invocations bevs" by blast
  from "4.IH" [OF e u] obtain st' evs where
    p: "pass_once cbs f es st1 = Done st'"
    and l': "listeners_of st' s = listeners_of st1 s"
    and v': "value_of st' s = value_of st1 s"
    and t': "trace st' = trace st1 @ evs"
    and c': "\<forall>c \<in> set prot. count_list (invocations evs) c = count_list (array_from es) c"
    by blast
  have "\<forall>c \<in> set prot. count_list (invocations (Invoked cb # bevs @ evs)) c =
      count_list (array_from (Some cb # es)) c"
    using c' q ci by (auto simp: count_list_none)
  moreover have "trace st' = trace st @ (Invoked cb # bevs @ evs)"
    using t' t1 by simp
  moreover have "pass_once cbs (Suc f) (Some cb # es) st = Done st'"
    using e p by simp
  ultimately show ?case using l l' v v' by metis
qed

lemma forEach_snapshot:
  assumes "undisturbed cbs f s prot (drop i (listeners_of st s)) st"
  shows "forEach cbs f s i st = pass_once cbs f (drop i (listeners_of st s)) st"
  using assms
proof (induction f arbitrary: i st)
  case 0
  show ?case
  proof (cases "i < length (listeners_of st s)")
    case True
    then have "drop i (listeners_of st s) \<noteq> []" by simp
    then obtain e es where "drop i (listeners_of st s) = e # es"
      by (cases "drop i (listeners_of st s)") auto
    with "0.prems" show ?thesis by simp
  next
    case False
    then show ?thesis by simp
  qed
next
  case (Suc f)
  let ?ls = "listeners_of st s"
  show ?case
  proof (cases "i < length ?ls")
    case False
    then show ?thesis by simp
  next
    case True
    then have d: "drop i ?ls = ?ls ! i # drop (Suc i) ?ls"
      by (simp add: Cons_nth_drop_Suc)
    show ?thesis
    proof (cases "?ls ! i")
      case None
      have u: "undisturbed cbs (Suc f) s prot (None # drop (Suc i) ?ls) st"
        using Suc.prems unfolding d None .
      then have "undisturbed cbs f s prot (drop (Suc i) ?ls) st" by simp
      from Suc.IH [OF this] have
        ih: "forEach cbs f s (Suc i) st = pass_once cbs f (drop (Suc i) ?ls) st" .
      have r: "pass_once cbs (Suc f) (drop i ?ls) st = pass_once cbs f (drop (Suc i) ?ls) st"
        unfolding d None by simp
      have "forEach cbs (Suc f) s i st = forEach cbs f s (Suc i) st"
        using True None by simp
      with ih r show ?thesis by simp
    next
      case (Some cb)
      have u: "undisturbed cbs (Suc f) s prot (Some cb # drop (Suc i) ?ls) st"
        using Suc.prems unfolding d Some .
      then obtain st1 where
        e: "exec cbs f (cbs cb) (record_event (Invoked cb) st) = Done st1"
        by (auto split: outcome.splits)
      with u have l: "listeners_of st1 s = ?ls"
        and u1: "undisturbed cbs f s prot (drop (Suc i) ?ls) st1"
        by simp_all
      from u1 l have "undisturbed cbs f s prot (drop (Suc i) (listeners_of st1 s)) st1"
        by simp
      from Suc.IH [OF this] l have
        ih: "forEach cbs f s (Suc i) st1 = pass_once cbs f (drop (Suc i) ?ls) st1"
        by simp
      have r: "pass_once cbs (Suc f) (drop i ?ls) st = pass_once cbs f (drop (Suc i) ?ls) st1"
        unfolding d Some using e by simp
      have "forEach cbs (Suc f) s i st = forEach cbs f s (Suc i) st1"
        using True Some e by simp
      with ih r show ?thesis by simp
    qed
  qed
qed

text \<open>
  Three ways in which a listener disturbs the pass that calls it. A listener that throws
  ends the pass: the listener after it is not called. A listener that writes to the
  signal that notified it is called again by the pass of its own write, and the value
  stored when the outer write returns is not the value written.
\<close>

lemma write_stops_at_throwing_listener:
  "set_trap thrower_cbs 3 0 ''value'' (Num 5) (subscribe (subscribe one_signal 0 5) 0 1) =
     Threw UserError
       \<lparr>cells = [\<lparr>sig_value = Num 5, listeners = [Some 5, Some 1]\<rparr>], store = [0],
        isRunningEffect = False, effectDependencies = [], trace = [Invoked 5]\<rparr>"
  by code_simp

lemma write_reenters_listener:
  "set_trap reentrant_cbs 3 0 ''value'' (Num 1) (subscribe one_signal 0 0) =
     Done (True,
       \<lparr>cells = [\<lparr>sig_value = Num 2, listeners = [Some 0]\<rparr>], store = [0],
        isRunningEffect = False, effectDependencies = [],
        trace = [Invoked 0, ReadValue 0, Invoked 0, ReadValue 0]\<rparr>)"
  by code_simp

lemma forEach_end: "length (listeners_of st s) \<le> i \<Longrightarrow> forEach cbs f s i st = Done st"
  by (cases f) simp_all

lemma single_listener_write:
  assumes "listeners_of st s = [Some fn]" and "reads_only (length (cells st)) (cbs fn)"
    and "0 < f"
  shows "\<exists>st'. set_trap cbs f s ''value'' v st = Done (True, st') \<and>
           exec cbs (f - 1) (cbs fn) (record_event (Invoked fn) (store_value st s v)) = Done st' \<and>
           cells st' = cells (store_value st s v) \<and>
           invocations (trace st') = invocations (trace st) @ [fn]"
proof -
  let ?st0 = "store_value st s v"
  let ?st1 = "record_event (Invoked fn) ?st0"
  from assms(3) obtain f0 where f: "f = Suc f0" by (cases f) auto
  from assms(2) have "reads_only (length (cells ?st1)) (cbs fn)" by simp
  from reads_only_exec(1) [OF this, of ?st1 cbs f0] obtain st' where
    e: "exec cbs f0 (cbs fn) ?st1 = Done st'" and c: "cells st' = cells ?st0"
    and i: "invocations (trace st') = invocations (trace st) @ [fn]"
    by auto
  have l0: "listeners_of ?st0 s = [Some fn]" using assms(1) by simp
  from c have "listeners_of st' s = listeners_of ?st0 s" by (rule listeners_of_cells)
  with l0 have "length (listeners_of st' s) \<le> Suc 0" by simp
  then have "forEach cbs f0 s (Suc 0) st' = Done st'" by (rule forEach_end)
  with e l0 have "forEach cbs (Suc f0) s 0 ?st0 = Done st'" by simp
  with f have "set_trap cbs f s ''value'' v st = Done (True, st')" by simp
  with e c i f show ?thesis by simp
qed

section \<open>Writes that leave an effect alone\<close>

lemma subscriptions_same:
  assumes "subscriptions st' cb = subscriptions st cb"
  shows "length (cells st') = length (cells st)"
    and "set_has (listeners_of st' s) cb = set_has (listeners_of st s) cb"
proof -
  from assms have "length (subscriptions st' cb) = length (subscriptions st cb)" by simp
  then show n: "length (cells st') = length (cells st)" by (simp add: subscriptions_def)
  show "set_has (listeners_of st' s) cb = set_has (listeners_of st s) cb"
  proof (cases "s < length (cells st)")
    case True
    with n have "subscriptions st' cb ! s = set_has (listeners (cells st' ! s)) cb"
      and "subscriptions st cb ! s = set_has (listeners (cells st ! s)) cb"
      by (simp_all add: subscriptions_def)
    with assms True n show ?thesis by (simp add: listeners_of_def)
  next
    case False
    with n show ?thesis by (simp add: listeners_of_def)
  qed
qed

lemma calm_write:
  assumes "s < length (cells st)" and "sets_ok st"
    and "undisturbed cbs f s (cb # array_from (listeners_of st s)) (listeners_of st s)
           (store_value st s v)"
  shows "\<exists>st' evs. step cbs f (SetProp s ''value'' v) st = Done st' \<and>
           pass_once cbs f (listeners_of st s) (store_value st s v) = Done st' \<and>
           trace st' = trace st @ evs \<and> sets_ok st' \<and>
           count_list (invocations evs) cb = (if set_has (listeners_of st s) cb then 1 else 0)"
proof -
  let ?st0 = "store_value st s v"
  let ?ls = "listeners_of st s"
  from pass_once_undisturbed [OF assms(3)] obtain st' evs where
    p: "pass_once cbs f ?ls ?st0 = Done st'"
    and t: "trace st' = trace ?st0 @ evs"
    and c: "\<forall>c \<in> set (cb # array_from ?ls). count_list (invocations evs) c =
        count_list (array_from ?ls) c"
    by blast
  have "undisturbed cbs f s (cb # array_from ?ls) (drop 0 (listeners_of ?st0 s)) ?st0"
    using assms(3) by simp
  from forEach_snapshot [OF this] have "forEach cbs f s 0 ?st0 = pass_once cbs f ?ls ?st0"
    by simp
  with p assms(1) have r: "step cbs f (SetProp s ''value'' v) st = Done st'" by simp
  then have "ends_in (step cbs f (SetProp s ''value'' v) st) st'" by simp
  then have "frame st st'" by (rule frame_exec(2))
  with assms(2) have ok: "sets_ok st'" by (simp add: frame_def)
  have d: "distinct (array_from ?ls)" using assms(2) by (rule sets_ok_listeners)
  from c have "count_list (invocations evs) cb = count_list (array_from ?ls) cb" by simp
  also have "\<dots> = (if set_has ?ls cb then 1 else 0)"
    using d by (simp add: set_has_def set_array_from [symmetric] count_list_distinct
        count_list_absent)
  finally have "count_list (invocations evs) cb = (if set_has ?ls cb then 1 else 0)" .
  with r p t ok show ?thesis by auto
qed

lemma calm_writes_count:
  assumes "calm_writes cbs f cb ws st" and "sets_ok st"
    and "\<forall>s < length (cells st). set_has (listeners_of st s) cb \<longleftrightarrow> s \<in> D"
  shows "\<exists>st' evs. exec cbs f (writes ws) st = Done st' \<and> trace st' = trace st @ evs \<and>
           count_list (invocations evs) cb = length (filter (\<lambda>w. fst w \<in> D) ws)"
  using assms
proof (induction ws arbitrary: st)
  case Nil
  then show ?case by (simp add: writes_def)
next
  case (Cons w ws)
  obtain s v where w: "w = (s, v)" by (cases w)
  from Cons.prems(1) w have sv: "s < length (cells st)"
    and u: "undisturbed cbs f s (cb # array_from (listeners_of st s)) (listeners_of st s)
           (store_value st s v)"
    by simp_all
  from calm_write [OF sv Cons.prems(2) u] obtain st1 evs where
    s1: "step cbs f (SetProp s ''value'' v) st = Done st1"
    and p1: "pass_once cbs f (listeners_of st s) (store_value st s v) = Done st1"
    and t1: "trace st1 = trace st @ evs" and ok1: "sets_ok st1"
    and c1: "count_list (invocations evs) cb = (if set_has (listeners_of st s) cb then 1 else 0)"
    by blast
  from Cons.prems(1) w p1 have sub: "subscriptions st1 cb = subscriptions st cb"
    and calm: "calm_writes cbs f cb ws st1"
    by simp_all
  from subscriptions_same [OF sub] have n1: "length (cells st1) = length (cells st)"
    and m1: "\<And>s'. set_has (listeners_of st1 s') cb = set_has (listeners_of st s') cb"
    by simp_all
  have ch: "\<forall>s < length (cells st1). set_has (listeners_of st1 s) cb \<longleftrightarrow> s \<in> D"
    using Cons.prems(3) n1 m1 by simp
  from Cons.IH [OF calm ok1 ch] obtain st' evs' where
    e: "exec cbs f (writes ws) st1 = Done st'" and t': "trace st' = trace st1 @ evs'"
    and c': "count_list (invocations evs') cb = length (filter (\<lambda>w. fst w \<in> D) ws)"
    by blast
  from c1 Cons.prems(3) sv have c1': "count_list (invocations evs) cb = (if s \<in> D then 1 else 0)"
    by simp
  have "exec cbs f (writes (w # ws)) st = Done st'"
    using s1 e w by (simp add: writes_def)
  moreover have "trace st' = trace st @ (evs @ evs')" using t1 t' by simp
  moreover have "count_list (invocations (evs @ evs')) cb =
      length (filter (\<lambda>w. fst w \<in> D) (w # ws))"
    using c1' c' w by simp
  ultimately show ?case by blast
qed

lemma sets_ok_subscribe_all: "sets_ok st \<Longrightarrow> sets_ok (snd (subscribe_all st deps cb))"
proof (induction deps arbitrary: st)
  case Nil
  then show ?case by simp
next
  case (Cons d ds)
  from Cons.prems have "sets_ok (subscribe st d cb)" by (rule sets_ok_subscribe)
  from Cons.IH [OF this] show ?case by (simp add: split_beta)
qed

lemma set_has_set_add: "set_has (set_add xs x) y \<longleftrightarrow> set_has xs y \<or> y = x"
  by (auto simp: set_has_def set_add_def)

text \<open>
  An effect that starts with a working set that is not empty: the callback of the first
  effect read signal 0 and threw; the second effect, whose callback reads nothing, is
  subscribed to signal 0, and a write to it calls that callback.
\<close>

lemma effect_subscribes_stale_signal:
  "signalEffect stale_cbs 1 1
       \<lparr>cells = [\<lparr>sig_value = Num 0, listeners = []\<rparr>], store = [0],
        isRunningEffect = True, effectDependencies = [Some 0],
        trace = [Invoked 0, ReadValue 0]\<rparr> =
     Done ([(0, 1)],
       \<lparr>cells = [\<lparr>sig_value = Num 0, listeners = [Some 1]\<rparr>], store = [0],
        isRunningEffect = False, effectDependencies = [],
        trace = [Invoked 0, ReadValue 0, Invoked 1]\<rparr>) \<and>
   set_trap stale_cbs 1 0 ''value'' (Num 3)
       \<lparr>cells = [\<lparr>sig_value = Num 0, listeners = [Some 1]\<rparr>], store = [0],
        isRunningEffect = False, effectDependencies = [],
        trace = [Invoked 0, ReadValue 0, Invoked 1]\<rparr> =
     Done (True,
       \<lparr>cells = [\<lparr>sig_value = Num 3, listeners = [Some 1]\<rparr>], store = [0],
        isRunningEffect = False, effectDependencies = [],
        trace = [Invoked 0, ReadValue 0, Invoked 1, Invoked 1]\<rparr>)"
  by code_simp

section \<open>Writes that the signal rejects\<close>

text \<open>
  C5. For every signal and every property name other than \<open>value\<close>, the \<open>set\<close> trap of the
  signal's proxy returns false and leaves the whole state as it was: nothing is stored and
  no listener is called.
\<close>

theorem set_trap_rejects_other_properties:
  "prop \<noteq> ''value'' \<Longrightarrow> set_trap cbs f s prop v st = Done (False, st)"
  by simp

theorem set_trap_rejects_other_properties_witness:
  "''subscribe'' \<noteq> ''value'' \<and>
   set_trap idle_cbs 2 0 ''subscribe'' (Num 1) two_listeners = Done (False, two_listeners)"
  using set_trap_rejects_other_properties [of "''subscribe''" idle_cbs 2 0 "Num 1" two_listeners]
  by simp

section \<open>Writes to a signal's value\<close>




section \<open>Writing an equal value\<close>

text \<open>
  C6. A signal is created and \<open>fn\<close>, a callback that only observes, is subscribed to it.
  Writing \<open>v\<close> to \<open>value\<close> calls \<open>fn\<close> once: the write returns in the state that the run
  of the body of \<open>fn\<close> reaches from the stored value, with one more call of \<open>fn\<close> in the
  trace. The stored value is then \<open>v\<close>, and writing \<open>v\<close> again runs \<open>fn\<close> once more in the
  same way: the signal does not compare the new value with the stored one.
\<close>

theorem equal_write_notifies_again:
  assumes "createSignal st0 v0 = (s, st1)"
    and "reads_only (length (cells st1)) (cbs fn)" and "0 < f"
  shows "\<exists>st2 st3. set_trap cbs f s ''value'' v (subscribe st1 s fn) = Done (True, st2) \<and>
           exec cbs (f - 1) (cbs fn)
             (record_event (Invoked fn) (store_value (subscribe st1 s fn) s v)) = Done st2 \<and>
           invocations (trace st2) = invocations (trace st1) @ [fn] \<and>
           value_of st2 s = v \<and>
           set_trap cbs f s ''value'' v st2 = Done (True, st3) \<and>
           exec cbs (f - 1) (cbs fn) (record_event (Invoked fn) (store_value st2 s v)) =
             Done st3 \<and>
           invocations (trace st3) = invocations (trace st2) @ [fn] \<and>
           value_of st3 s = v"
proof -
  let ?st = "subscribe st1 s fn"
  note cf = createSignal_fields [OF assms(1)]
  from cf have sv: "s < length (cells st1)" by simp
  then have l: "listeners_of ?st s = [Some fn]"
    using cf(3) by (simp add: subscribe_listeners set_add_def)
  have ro: "reads_only (length (cells ?st)) (cbs fn)" using assms(2) by simp
  from single_listener_write [of ?st s fn cbs f v, OF l ro assms(3)] obtain st2 where
    r2: "set_trap cbs f s ''value'' v ?st = Done (True, st2)"
    and e2: "exec cbs (f - 1) (cbs fn) (record_event (Invoked fn) (store_value ?st s v)) =
        Done st2"
    and c2: "cells st2 = cells (store_value ?st s v)"
    and i2: "invocations (trace st2) = invocations (trace ?st) @ [fn]"
    by blast
  from c2 have l2: "listeners_of st2 s = [Some fn]"
    using listeners_of_cells [of st2 "store_value ?st s v" s] l by simp
  from c2 have n2: "length (cells st2) = length (cells st1)" by simp
  from c2 sv have v2: "value_of st2 s = v"
    using store_value_value [of s ?st v] value_of_cells [of st2 "store_value ?st s v" s]
    by simp
  have ro2: "reads_only (length (cells st2)) (cbs fn)" using assms(2) n2 by simp
  from single_listener_write [of st2 s fn cbs f v, OF l2 ro2 assms(3)] obtain st3 where
    r3: "set_trap cbs f s ''value'' v st2 = Done (True, st3)"
    and e3: "exec cbs (f - 1) (cbs fn) (record_event (Invoked fn) (store_value st2 s v)) =
        Done st3"
    and c3: "cells st3 = cells (store_value st2 s v)"
    and i3: "invocations (trace st3) = invocations (trace st2) @ [fn]"
    by blast
  from c3 sv n2 have v3: "value_of st3 s = v"
    using store_value_value [of s st2 v] value_of_cells [of st3 "store_value st2 s v" s]
    by simp
  from r2 e2 i2 v2 r3 e3 i3 v3 show ?thesis by simp
qed

theorem equal_write_notifies_again_witness:
  "createSignal init (Num 0) = (0, one_signal) \<and>
   reads_only (length (cells one_signal)) (reader_cbs 7) \<and> (0::nat) < 1 \<and>
   set_trap reader_cbs 1 0 ''value'' (Num 5) (subscribe one_signal 0 7) =
     Done (True,
       \<lparr>cells = [\<lparr>sig_value = Num 5, listeners = [Some 7]\<rparr>], store = [0],
        isRunningEffect = False, effectDependencies = [],
        trace = [Invoked 7, ReadValue 0]\<rparr>) \<and>
   set_trap reader_cbs 1 0 ''value'' (Num 5)
       \<lparr>cells = [\<lparr>sig_value = Num 5, listeners = [Some 7]\<rparr>], store = [0],
        isRunningEffect = False, effectDependencies = [],
        trace = [Invoked 7, ReadValue 0]\<rparr> =
     Done (True,
       \<lparr>cells = [\<lparr>sig_value = Num 5, listeners = [Some 7]\<rparr>], store = [0],
        isRunningEffect = False, effectDependencies = [],
        trace = [Invoked 7, ReadValue 0, Invoked 7, ReadValue 0]\<rparr>) \<and>
   (\<exists>st2 st3.
      set_trap reader_cbs 1 0 ''value'' (Num 5) (subscribe one_signal 0 7) = Done (True, st2) \<and>
      exec reader_cbs (1 - 1) (reader_cbs 7)
        (record_event (Invoked 7) (store_value (subscribe one_signal 0 7) 0 (Num 5))) =
        Done st2 \<and>
      invocations (trace st2) = invocations (trace one_signal) @ [7] \<and>
      value_of st2 0 = Num 5 \<and>
      set_trap reader_cbs 1 0 ''value'' (Num 5) st2 = Done (True, st3) \<and>
      exec reader_cbs (1 - 1) (reader_cbs 7)
        (record_event (Invoked 7) (store_value st2 0 (Num 5))) = Done st3 \<and>
      invocations (trace st3) = invocations (trace st2) @ [7] \<and>
      value_of st3 0 = Num 5)"
proof -
  have h1: "createSignal init (Num 0) = (0, one_signal)"
    by (simp add: one_signal_def createSignal_def Let_def init_def)
  have h2: "reads_only (length (cells one_signal)) (reader_cbs 7)" by code_simp
  have h3: "(0::nat) < 1" by simp
  have r1: "set_trap reader_cbs 1 0 ''value'' (Num 5) (subscribe one_signal 0 7) =
     Done (True,
       \<lparr>cells = [\<lparr>sig_value = Num 5, listeners = [Some 7]\<rparr>], store = [0],
        isRunningEffect = False, effectDependencies = [],
        trace = [Invoked 7, ReadValue 0]\<rparr>)"
    by code_simp
  have r2: "set_trap reader_cbs 1 0 ''value'' (Num 5)
       \<lparr>cells = [\<lparr>sig_value = Num 5, listeners = [Some 7]\<rparr>], store = [0],
        isRunningEffect = False, effectDependencies = [],
        trace = [Invoked 7, ReadValue 0]\<rparr> =
     Done (True,
       \<lparr>cells = [\<lparr>sig_value = Num 5, listeners = [Some 7]\<rparr>], store = [0],
        isRunningEffect = False, effectDependencies = [],
        trace = [Invoked 7, ReadValue 0, Invoked 7, ReadValue 0]\<rparr>)"
    by code_simp
  from equal_write_notifies_again
      [of init "Num 0" 0 one_signal reader_cbs 7 1 "Num 5", OF h1 h2 h3]
    h1 h2 h3 r1 r2
  show ?thesis by blast
qed

section \<open>Capturing dependencies\<close>

text \<open>
  C2, as stated, fails in a state that the program reaches. The callback of an effect
  reads \<open>a.value\<close> and throws: \<open>signalEffect\<close> throws, and the working set still holds \<open>a\<close>.
  \<open>getDependenciesFromEffect\<close> of a callback with an empty body, which reads no signal,
  then returns \<open>[a]\<close>.
\<close>

theorem capture_returns_stale_signal:
  "signalEffect stale_cbs 1 0 one_signal =
     Threw UserError
       \<lparr>cells = [\<lparr>sig_value = Num 0, listeners = []\<rparr>], store = [0],
        isRunningEffect = True, effectDependencies = [Some 0],
        trace = [Invoked 0, ReadValue 0]\<rparr> \<and>
   stale_cbs 1 = [] \<and>
   getDependenciesFromEffect stale_cbs 0 1
       \<lparr>cells = [\<lparr>sig_value = Num 0, listeners = []\<rparr>], store = [0],
        isRunningEffect = True, effectDependencies = [Some 0],
        trace = [Invoked 0, ReadValue 0]\<rparr> =
     Done ([0],
       \<lparr>cells = [\<lparr>sig_value = Num 0, listeners = []\<rparr>], store = [0],
        isRunningEffect = False, effectDependencies = [],
        trace = [Invoked 0, ReadValue 0, Invoked 1]\<rparr>)"
  by code_simp

text \<open>
  C2, amended. When the working set is empty as the capture starts and the call of \<open>fn\<close>
  returns: \<open>getDependenciesFromEffect(fn)\<close> returns; it has called \<open>fn\<close> once, with the
  capture flag set until \<open>fn\<close> returned; the list it returns holds exactly the signals
  whose \<open>value\<close> was read through the \<open>get\<close> trap during that call, each once, in the
  order of their first read, so that a signal read only in a branch that was not taken
  is not in it; and the state it leaves is the one \<open>fn\<close> left, with the flag false and
  the working set empty.
\<close>

theorem capture_returns_signals_read:
  assumes "effectDependencies st = []"
    and "exec cbs f (cbs fn) (record_event (Invoked fn) (st\<lparr>isRunningEffect := True\<rparr>)) =
      Done st1"
  shows "\<exists>evs. trace st1 = trace st @ Invoked fn # evs \<and> isRunningEffect st1 \<and>
           getDependenciesFromEffect cbs f fn st =
             Done (dedup (reads evs), st1\<lparr>isRunningEffect := False, effectDependencies := []\<rparr>)"
proof -
  let ?st0 = "record_event (Invoked fn) (st\<lparr>isRunningEffect := True\<rparr>)"
  from assms(2) have "ends_in (exec cbs f (cbs fn) ?st0) st1" by simp
  then have "frame ?st0 st1" by (rule frame_exec(1))
  moreover have "isRunningEffect ?st0" by simp
  ultimately have fl: "isRunningEffect st1" and "\<exists>evs. trace st1 = trace ?st0 @ evs \<and>
      effectDependencies st1 = foldl set_add (effectDependencies ?st0) (reads evs)"
    using frame_recorder by blast+
  then obtain evs where t: "trace st1 = trace ?st0 @ evs"
    and w: "effectDependencies st1 = foldl set_add (effectDependencies ?st0) (reads evs)"
    by blast
  from w assms(1) have "array_from (effectDependencies st1) = dedup (reads evs)"
    by (simp add: array_from_foldl_set_add_empty)
  with assms(2) have "getDependenciesFromEffect cbs f fn st =
      Done (dedup (reads evs), st1\<lparr>isRunningEffect := False, effectDependencies := []\<rparr>)"
    by (simp add: getDependenciesFromEffect_def Let_def)
  moreover from t have "trace st1 = trace st @ Invoked fn # evs" by simp
  ultimately show ?thesis using fl by blast
qed

theorem capture_returns_signals_read_witness:
  "effectDependencies three_signals = [] \<and>
   exec capture_cbs 0 (capture_cbs 0)
     (record_event (Invoked 0) (three_signals\<lparr>isRunningEffect := True\<rparr>)) =
     Done (three_signals\<lparr>isRunningEffect := True, effectDependencies := [Some 1, Some 2],
             trace := [Invoked 0, ReadValue 1, ReadValue 2, ReadValue 1]\<rparr>) \<and>
   getDependenciesFromEffect capture_cbs 0 0 three_signals =
     Done ([1, 2], three_signals\<lparr>trace := [Invoked 0, ReadValue 1, ReadValue 2, ReadValue 1]\<rparr>) \<and>
   (\<exists>evs. trace (three_signals\<lparr>isRunningEffect := True, effectDependencies := [Some 1, Some 2],
                    trace := [Invoked 0, ReadValue 1, ReadValue 2, ReadValue 1]\<rparr>) =
            trace three_signals @ Invoked 0 # evs \<and>
      getDependenciesFromEffect capture_cbs 0 0 three_signals =
        Done (dedup (reads evs),
          three_signals\<lparr>isRunningEffect := True, effectDependencies := [Some 1, Some 2],
            trace := [Invoked 0, ReadValue 1, ReadValue 2, ReadValue 1]\<rparr>
            \<lparr>isRunningEffect := False, effectDependencies := []\<rparr>))"
proof -
  have h1: "effectDependencies three_signals = []" by code_simp
  have h2: "exec capture_cbs 0 (capture_cbs 0)
     (record_event (Invoked 0) (three_signals\<lparr>isRunningEffect := True\<rparr>)) =
     Done (three_signals\<lparr>isRunningEffect := True, effectDependencies := [Some 1, Some 2],
             trace := [Invoked 0, ReadValue 1, ReadValue 2, ReadValue 1]\<rparr>)"
    by code_simp
  have r: "getDependenciesFromEffect capture_cbs 0 0 three_signals =
     Done ([1, 2], three_signals\<lparr>trace := [Invoked 0, ReadValue 1, ReadValue 2, ReadValue 1]\<rparr>)"
    by code_simp
  from capture_returns_signals_read [of three_signals capture_cbs 0 0, OF h1 h2] h1 h2 r
  show ?thesis by blast
qed

section \<open>An effect that throws\<close>

text \<open>
  C8, as stated, fails: \<open>getDependenciesFromEffect\<close> has no \<open>try\<close>, so a throw of the
  callback skips the statements that clear the flag and the working set. The callback
  reads \<open>a.value\<close> and throws; \<open>signalEffect\<close> throws, and leaves the flag true and \<open>a\<close> in
  the working set.
\<close>

theorem effect_throw_leaves_recorder_set:
  "\<not> isRunningEffect one_signal \<and> effectDependencies one_signal = [] \<and>
   signalEffect throw_cbs 1 0 one_signal =
     Threw UserError
       \<lparr>cells = [\<lparr>sig_value = Num 0, listeners = []\<rparr>], store = [0],
        isRunningEffect = True, effectDependencies = [Some 0],
        trace = [Invoked 0, ReadValue 0]\<rparr>"
  by code_simp

text \<open>
  C8, amended. If the callback passed to \<open>signalEffect\<close> throws during the initial run,
  the exception propagates to the caller with the state exactly as the callback left it:
  \<open>signalEffect\<close> subscribes nothing. The capture flag stays set, and the working set holds
  what it held before together with the signals read before the throw.
\<close>

theorem effect_throw_propagates:
  assumes "exec cbs f (cbs cb) (record_event (Invoked cb) (st\<lparr>isRunningEffect := True\<rparr>)) =
      Threw e st'"
  shows "signalEffect cbs f cb st = Threw e st' \<and>
         getDependenciesFromEffect cbs f cb st = Threw e st' \<and>
         isRunningEffect st' \<and>
         (\<exists>evs. trace st' = trace st @ Invoked cb # evs \<and>
            effectDependencies st' = foldl set_add (effectDependencies st) (reads evs))"
proof -
  let ?st0 = "record_event (Invoked cb) (st\<lparr>isRunningEffect := True\<rparr>)"
  from assms have g: "getDependenciesFromEffect cbs f cb st = Threw e st'"
    by (simp add: getDependenciesFromEffect_def)
  then have s: "signalEffect cbs f cb st = Threw e st'"
    by (simp add: signalEffect_def)
  from assms have "ends_in (exec cbs f (cbs cb) ?st0) st'" by simp
  then have "frame ?st0 st'" by (rule frame_exec(1))
  moreover have "isRunningEffect ?st0" by simp
  ultimately have "isRunningEffect st' \<and>
     (\<exists>evs. trace st' = trace ?st0 @ evs \<and>
        effectDependencies st' = foldl set_add (effectDependencies ?st0) (reads evs))"
    by (rule frame_recorder)
  with g s show ?thesis by simp
qed

theorem effect_throw_propagates_witness:
  "exec throw_cbs 1 (throw_cbs 0)
     (record_event (Invoked 0) (one_signal\<lparr>isRunningEffect := True\<rparr>)) =
     Threw UserError (one_signal\<lparr>isRunningEffect := True, effectDependencies := [Some 0],
                       trace := [Invoked 0, ReadValue 0]\<rparr>) \<and>
   signalEffect throw_cbs 1 0 one_signal =
     Threw UserError (one_signal\<lparr>isRunningEffect := True, effectDependencies := [Some 0],
                       trace := [Invoked 0, ReadValue 0]\<rparr>) \<and>
   isRunningEffect (one_signal\<lparr>isRunningEffect := True, effectDependencies := [Some 0],
                       trace := [Invoked 0, ReadValue 0]\<rparr>)"
proof -
  have h: "exec throw_cbs 1 (throw_cbs 0)
     (record_event (Invoked 0) (one_signal\<lparr>isRunningEffect := True\<rparr>)) =
     Threw UserError (one_signal\<lparr>isRunningEffect := True, effectDependencies := [Some 0],
                       trace := [Invoked 0, ReadValue 0]\<rparr>)"
    by code_simp
  from effect_throw_propagates [OF h] h show ?thesis by simp
qed

section \<open>Unsubscribing\<close>

text \<open>
  C7. \<open>unsubscribe st s cb\<close> is the call of the function that \<open>s.subscribe(cb)\<close> returned.
  After it, \<open>cb\<close> is not a listener of \<open>s\<close>, and no write of any sequence of writes to
  \<open>s.value\<close> that follows calls \<open>cb\<close>, the first one included, when the callbacks
  only observe (so that none subscribes \<open>cb\<close> again). Calling the function a second time
  changes nothing and does not fail.
\<close>

theorem unsubscribed_listener_not_invoked:
  assumes "\<forall>c. reads_only (length (cells st)) (cbs c)" and "s < length (cells st)"
    and "length (listeners_of st s) \<le> f"
  shows "unsubscribe (unsubscribe st s cb) s cb = unsubscribe st s cb \<and>
         \<not> set_has (listeners_of (unsubscribe st s cb) s) cb \<and>
         (\<exists>st' evs. exec cbs f (writes (map (Pair s) vs)) (unsubscribe st s cb) = Done st' \<and>
            trace st' = trace st @ evs \<and> cb \<notin> set (invocations evs))"
proof -
  let ?u = "unsubscribe st s cb"
  have l: "listeners_of ?u s = set_delete (listeners_of st s) cb"
    using assms(2) by (simp add: unsubscribe_listeners)
  then have nm: "cb \<notin> set (array_from (listeners_of ?u s))"
    by (simp add: array_from_set_delete)
  then have nh: "\<not> set_has (listeners_of ?u s) cb"
    by (simp add: set_has_def set_array_from)
  have a: "\<forall>c. reads_only (length (cells ?u)) (cbs c)" using assms(1) by simp
  have b: "\<forall>w \<in> set (map (Pair s) vs).
      fst w < length (cells ?u) \<and> length (listeners_of ?u (fst w)) \<le> f"
    using assms(2,3) l by auto
  from writes_observers [OF a b] obtain st' where
    e: "exec cbs f (writes (map (Pair s) vs)) ?u = Done st'"
    and i: "invocations (trace st') = invocations (trace ?u) @
        concat (map (\<lambda>w. array_from (listeners_of ?u (fst w))) (map (Pair s) vs))"
    by blast
  from e have "ends_in (exec cbs f (writes (map (Pair s) vs)) ?u) st'" by simp
  then have "frame ?u st'" by (rule frame_exec(1))
  then obtain evs where t: "trace st' = trace ?u @ evs" by (auto dest: frame_trace)
  with i have "invocations evs =
      concat (map (\<lambda>w. array_from (listeners_of ?u (fst w))) (map (Pair s) vs))"
    by simp
  with nm have "cb \<notin> set (invocations evs)" by auto
  with e t nh unsubscribe_twice [of st s cb] show ?thesis by auto
qed

theorem unsubscribed_listener_not_invoked_witness:
  "(\<forall>c. reads_only (length (cells two_listeners)) (reader_cbs c)) \<and>
   0 < length (cells two_listeners) \<and> length (listeners_of two_listeners 0) \<le> 2 \<and>
   unsubscribe (unsubscribe two_listeners 0 1) 0 1 = unsubscribe two_listeners 0 1 \<and>
   \<not> set_has (listeners_of (unsubscribe two_listeners 0 1) 0) 1 \<and>
   (\<exists>st' evs. exec reader_cbs 2 (writes (map (Pair 0) [Num 1, Num 2]))
                 (unsubscribe two_listeners 0 1) = Done st' \<and>
      trace st' = trace two_listeners @ evs \<and> 1 \<notin> set (invocations evs))"
proof -
  have c: "length (cells two_listeners) = 1" by code_simp
  have h1: "\<forall>c. reads_only (length (cells two_listeners)) (reader_cbs c)"
    by (simp add: c reader_cbs_def)
  have h2: "0 < length (cells two_listeners)" by (simp add: c)
  have h3: "length (listeners_of two_listeners 0) \<le> 2" by code_simp
  from unsubscribed_listener_not_invoked [OF h1 h2 h3, of 1 "[Num 1, Num 2]"] h1 h2 h3
  show ?thesis by blast
qed

section \<open>What registers a dependency\<close>

text \<open>
  C10. While the capture flag is set: reading \<open>value\<close> through the \<open>get\<close> trap of a signal
  adds the signal to the working set; reading \<open>subscribe\<close> changes nothing; reading a
  property of an inner proxy that the caller holds runs no trap and changes nothing;
  storing a written value does not touch the working set. Whatever a caller runs, writes
  and the listeners they call included, a signal is in the working set afterwards exactly
  when it was there before or its \<open>value\<close> was read through the \<open>get\<close> trap meanwhile.
\<close>

theorem dependency_registered_by_value_read:
  assumes "isRunningEffect st" and "ends_in (exec cbs f acts st) st'"
  shows "effectDependencies (snd (get_trap st s ''value'')) = set_add (effectDependencies st) s \<and>
         snd (get_trap st s ''subscribe'') = st \<and>
         step cbs f (InnerGet obj k) st = Done st \<and>
         effectDependencies (store_value st s v) = effectDependencies st \<and>
         (\<exists>evs. trace st' = trace st @ evs \<and>
            (\<forall>s'. set_has (effectDependencies st') s' \<longleftrightarrow>
               set_has (effectDependencies st) s' \<or> ReadValue s' \<in> set evs))"
proof -
  from assms(2) have "frame st st'" by (rule frame_exec(1))
  with assms(1) obtain evs where t: "trace st' = trace st @ evs"
    and w: "effectDependencies st' = foldl set_add (effectDependencies st) (reads evs)"
    using frame_recorder by blast
  have "\<forall>s'. set_has (effectDependencies st') s' \<longleftrightarrow>
      set_has (effectDependencies st) s' \<or> ReadValue s' \<in> set evs"
    by (simp add: w set_has_foldl_set_add set_reads)
  with t have "\<exists>evs. trace st' = trace st @ evs \<and>
      (\<forall>s'. set_has (effectDependencies st') s' \<longleftrightarrow>
         set_has (effectDependencies st) s' \<or> ReadValue s' \<in> set evs)"
    by blast
  moreover have "effectDependencies (snd (get_trap st s ''value'')) =
      set_add (effectDependencies st) s"
    using assms(1) by (simp add: get_trap_def Let_def record_event_def)
  ultimately show ?thesis by simp
qed

theorem dependency_registered_by_value_read_witness:
  "isRunningEffect (one_signal\<lparr>isRunningEffect := True\<rparr>) \<and>
   ends_in (exec idle_cbs 1
              [SetProp 0 ''value'' (Num 1), GetProp 0 ''subscribe'', InnerGet (Prox 0 []) ''x'']
              (one_signal\<lparr>isRunningEffect := True\<rparr>))
     (store_value (one_signal\<lparr>isRunningEffect := True\<rparr>) 0 (Num 1)) \<and>
   effectDependencies (snd (get_trap (one_signal\<lparr>isRunningEffect := True\<rparr>) 0 ''value'')) =
     set_add (effectDependencies (one_signal\<lparr>isRunningEffect := True\<rparr>)) 0 \<and>
   snd (get_trap (one_signal\<lparr>isRunningEffect := True\<rparr>) 0 ''subscribe'') =
     one_signal\<lparr>isRunningEffect := True\<rparr> \<and>
   (\<exists>evs. trace (store_value (one_signal\<lparr>isRunningEffect := True\<rparr>) 0 (Num 1)) =
            trace (one_signal\<lparr>isRunningEffect := True\<rparr>) @ evs \<and>
      (\<forall>s'. set_has (effectDependencies
                       (store_value (one_signal\<lparr>isRunningEffect := True\<rparr>) 0 (Num 1))) s' \<longleftrightarrow>
         set_has (effectDependencies (one_signal\<lparr>isRunningEffect := True\<rparr>)) s' \<or>
         ReadValue s' \<in> set evs))"
proof -
  have h1: "isRunningEffect (one_signal\<lparr>isRunningEffect := True\<rparr>)" by simp
  have h2: "ends_in (exec idle_cbs 1
              [SetProp 0 ''value'' (Num 1), GetProp 0 ''subscribe'', InnerGet (Prox 0 []) ''x'']
              (one_signal\<lparr>isRunningEffect := True\<rparr>))
     (store_value (one_signal\<lparr>isRunningEffect := True\<rparr>) 0 (Num 1))"
    by code_simp
  from dependency_registered_by_value_read [OF h1 h2, of 0 "Prox 0 []" "''x''" "Num 1"] h1 h2
  show ?thesis by blast
qed

section \<open>Effects and their dependencies\<close>




section \<open>Writes inside an object value\<close>

text \<open>
  C4. \<open>createSignal\<close> stores a plain object wrapped by \<open>recursiveProxy\<close>. For a signal
  \<open>s\<close> that holds a value so wrapped, and a path that stays in plain objects of the
  original: the assignment \<open>s.value.p1. ... .pn[k] = x\<close> is, after the store,
  \<open>notifyListeners\<close> of \<open>s\<close>, as the assignment \<open>s.value = y\<close> is, and both passes start on
  the same listener set; when the listeners only observe, both call exactly the listeners
  of \<open>s\<close>, in the same order. For a path that ends at an array, the assignment stores the
  element and returns: no callback is called.
\<close>

theorem nested_write_notifies_like_top_level:
  assumes "s < length (cells st)" and "isPlainObject v"
    and "value_of st s = recursiveProxy v s"
  shows "value_of (snd (createSignal st0 v)) (fst (createSignal st0 v)) =
           recursiveProxy v (fst (createSignal st0 v)) \<and>
         step cbs f (SetProp s ''value'' y) st =
           notifyListeners cbs f s (store_value st s y) \<and>
         (object_path v path \<longrightarrow>
            step cbs f (SetNested s path k x) st =
              notifyListeners cbs f s
                (store_value (snd (get_trap st s ''value'')) s
                   (assign_at (value_of st s) path k x)) \<and>
            listeners_of (store_value (snd (get_trap st s ''value'')) s
                            (assign_at (value_of st s) path k x)) s =
              listeners_of (store_value st s y) s \<and>
            (observers cbs st s \<and> length (listeners_of st s) \<le> f \<longrightarrow>
               (\<exists>st1 st2. step cbs f (SetNested s path k x) st = Done st1 \<and>
                  step cbs f (SetProp s ''value'' y) st = Done st2 \<and>
                  invocations (trace st1) =
                    invocations (trace st) @ array_from (listeners_of st s) \<and>
                  invocations (trace st2) =
                    invocations (trace st) @ array_from (listeners_of st s)))) \<and>
         (walk v apath = Inr (Arr fs) \<longrightarrow>
            step cbs f (SetNested s apath k x) st =
              Done (store_value (snd (get_trap st s ''value'')) s
                      (assign_at (value_of st s) apath k x)) \<and>
            invocations (trace (store_value (snd (get_trap st s ''value'')) s
                                  (assign_at (value_of st s) apath k x))) =
              invocations (trace st))"
proof -
  have c: "value_of (snd (createSignal st0 v)) (fst (createSignal st0 v)) =
      recursiveProxy v (fst (createSignal st0 v))"
    using assms(2) createSignal_fields(5) [of st0 v "fst (createSignal st0 v)"
        "snd (createSignal st0 v)"]
    by simp
  from assms(1) have t: "step cbs f (SetProp s ''value'' y) st =
      notifyListeners cbs f s (store_value st s y)"
    by (rule top_step)
  have n: "object_path v path \<longrightarrow>
      step cbs f (SetNested s path k x) st =
        notifyListeners cbs f s
          (store_value (snd (get_trap st s ''value'')) s
             (assign_at (value_of st s) path k x)) \<and>
      listeners_of (store_value (snd (get_trap st s ''value'')) s
                      (assign_at (value_of st s) path k x)) s =
        listeners_of (store_value st s y) s \<and>
      (observers cbs st s \<and> length (listeners_of st s) \<le> f \<longrightarrow>
         (\<exists>st1 st2. step cbs f (SetNested s path k x) st = Done st1 \<and>
            step cbs f (SetProp s ''value'' y) st = Done st2 \<and>
            invocations (trace st1) =
              invocations (trace st) @ array_from (listeners_of st s) \<and>
            invocations (trace st2) =
              invocations (trace st) @ array_from (listeners_of st s)))"
    using nested_object_write [OF assms(1) assms(3), of path cbs f k x y] by blast
  have a: "walk v apath = Inr (Arr fs) \<longrightarrow>
      step cbs f (SetNested s apath k x) st =
        Done (store_value (snd (get_trap st s ''value'')) s
                (assign_at (value_of st s) apath k x)) \<and>
      invocations (trace (store_value (snd (get_trap st s ''value'')) s
                            (assign_at (value_of st s) apath k x))) =
        invocations (trace st)"
    using nested_array_write [OF assms(1) assms(3), of apath fs cbs f k x] by blast
  from c t n a show ?thesis by blast
qed

theorem nested_write_notifies_like_top_level_witness:
  "0 < length (cells object_signal) \<and> isPlainObject object_value \<and>
   value_of object_signal 0 = recursiveProxy object_value 0 \<and>
   object_path object_value [''inner''] \<and>
   walk object_value [''items''] = Inr (Arr [(''0'', Num 1), (''1'', Num 2)]) \<and>
   observers idle_cbs object_signal 0 \<and> length (listeners_of object_signal 0) \<le> 2 \<and>
   (\<exists>st1 st2.
      step idle_cbs 2 (SetNested 0 [''inner''] ''count'' (Num 1)) object_signal = Done st1 \<and>
      step idle_cbs 2 (SetProp 0 ''value'' (Num 7)) object_signal = Done st2 \<and>
      invocations (trace st1) =
        invocations (trace object_signal) @ array_from (listeners_of object_signal 0) \<and>
      invocations (trace st2) =
        invocations (trace object_signal) @ array_from (listeners_of object_signal 0)) \<and>
   step idle_cbs 2 (SetNested 0 [''items''] ''0'' (Num 5)) object_signal =
     Done (store_value (snd (get_trap object_signal 0 ''value'')) 0
             (assign_at (value_of object_signal 0) [''items''] ''0'' (Num 5))) \<and>
   invocations (trace (store_value (snd (get_trap object_signal 0 ''value'')) 0
                         (assign_at (value_of object_signal 0) [''items''] ''0'' (Num 5)))) =
     invocations (trace object_signal)"
proof -
  have h1: "0 < length (cells object_signal)" by code_simp
  have h2: "isPlainObject object_value" by code_simp
  have h3: "value_of object_signal 0 = recursiveProxy object_value 0" by code_simp
  have h4: "object_path object_value [''inner'']" by code_simp
  have h5: "walk object_value [''items''] = Inr (Arr [(''0'', Num 1), (''1'', Num 2)])"
    by code_simp
  have h6: "observers idle_cbs object_signal 0" by code_simp
  have h7: "length (listeners_of object_signal 0) \<le> 2" by code_simp
  from nested_write_notifies_like_top_level
      [OF h1 h2 h3, of init idle_cbs 2 "Num 7" "[''inner'']" "''count''" "Num 1"
        "[''items'']" "[(''0'', Num 1), (''1'', Num 2)]"]
    nested_write_notifies_like_top_level
      [OF h1 h2 h3, of init idle_cbs 2 "Num 7" "[''inner'']" "''0''" "Num 5"
        "[''items'']" "[(''0'', Num 1), (''1'', Num 2)]"]
    h1 h2 h3 h4 h5 h6 h7
  show ?thesis by blast
qed

section \<open>Keys added after the signal was created\<close>

text \<open>
  C9. For a signal that holds a wrapped object and whose listeners only observe: the
  assignment \<open>s.value[k] = {...}\<close> of a plain object notifies the listeners and stores the
  object as it is, not wrapped; a later assignment \<open>s.value[k][a] = x\<close> then stores \<open>x\<close>
  and calls no callback.
\<close>

theorem added_key_is_not_wrapped:
  assumes "s < length (cells st)" and "isPlainObject v"
    and "value_of st s = recursiveProxy v s"
    and "observers cbs st s" and "length (listeners_of st s) \<le> f"
  shows "\<exists>st1 st2. step cbs f (SetNested s [] k (Obj gs)) st = Done st1 \<and>
           invocations (trace st1) = invocations (trace st) @ array_from (listeners_of st s) \<and>
           walk (value_of st1 s) [k] = Inr (Obj gs) \<and>
           step cbs f (SetNested s [k] a x) st1 = Done st2 \<and>
           invocations (trace st2) = invocations (trace st1) \<and>
           walk (value_of st2 s) [k, a] = Inr x"
proof -
  from recursiveProxy_plain [OF assms(2), of s] assms(3) obtain ps where
    v0: "value_of st s = Prox s ps" by auto
  let ?n = "store_value (snd (get_trap st s ''value'')) s (assign_at (value_of st s) [] k (Obj gs))"
  from v0 have "walk (value_of st s) [] = Inr (Prox s ps)" by simp
  with assms(1) have n: "step cbs f (SetNested s [] k (Obj gs)) st = notifyListeners cbs f s ?n"
    by (rule nested_step_proxy)
  from assms(4,5) have "observers cbs ?n s" and "length (listeners_of ?n s) \<le> f"
    by (simp_all add: observers_def)
  from notify_observers [OF this] obtain st1 where
    r1: "notifyListeners cbs f s ?n = Done st1" and c1: "cells st1 = cells ?n"
    and i1: "invocations (trace st1) = invocations (trace ?n) @ array_from (listeners_of ?n s)"
    by blast
  have "value_of ?n s = Prox s (set_field ps k (Obj gs))"
    using assms(1) v0 by (simp add: store_value_value)
  with c1 have v1: "value_of st1 s = Prox s (set_field ps k (Obj gs))"
    using value_of_cells [OF c1, of s] by simp
  then have w1: "walk (value_of st1 s) [k] = Inr (Obj gs)"
    by (simp add: get_field_set_field)
  from c1 have s1: "s < length (cells st1)" using assms(1) by simp
  let ?m = "store_value (snd (get_trap st1 s ''value'')) s (assign_at (value_of st1 s) [k] a x)"
  from w1 have "walk (value_of st1 s) [k] = Inr (Arr gs) \<or>
      walk (value_of st1 s) [k] = Inr (Obj gs)" by simp
  with s1 have m: "step cbs f (SetNested s [k] a x) st1 = Done ?m"
    by (rule nested_step_plain)
  have i2: "invocations (trace ?m) = invocations (trace st1)" by simp
  have "value_of ?m s = assign_at (value_of st1 s) [k] a x"
    using s1 by (simp add: store_value_value)
  then have w2: "walk (value_of ?m s) [k, a] = Inr x"
    using v1 by (simp add: get_field_set_field)
  from n r1 i1 w1 m i2 w2 show ?thesis by simp
qed

theorem added_key_is_not_wrapped_witness:
  "0 < length (cells object_signal) \<and> isPlainObject object_value \<and>
   value_of object_signal 0 = recursiveProxy object_value 0 \<and>
   observers idle_cbs object_signal 0 \<and> length (listeners_of object_signal 0) \<le> 2 \<and>
   (\<exists>st1 st2.
      step idle_cbs 2 (SetNested 0 [] ''newKey'' (Obj [(''a'', Num 1)])) object_signal =
        Done st1 \<and>
      invocations (trace st1) =
        invocations (trace object_signal) @ array_from (listeners_of object_signal 0) \<and>
      walk (value_of st1 0) [''newKey''] = Inr (Obj [(''a'', Num 1)]) \<and>
      step idle_cbs 2 (SetNested 0 [''newKey''] ''a'' (Num 2)) st1 = Done st2 \<and>
      invocations (trace st2) = invocations (trace st1) \<and>
      walk (value_of st2 0) [''newKey'', ''a''] = Inr (Num 2))"
proof -
  have h1: "0 < length (cells object_signal)" by code_simp
  have h2: "isPlainObject object_value" by code_simp
  have h3: "value_of object_signal 0 = recursiveProxy object_value 0" by code_simp
  have h4: "observers idle_cbs object_signal 0" by code_simp
  have h5: "length (listeners_of object_signal 0) \<le> 2" by code_simp
  from added_key_is_not_wrapped
      [OF h1 h2 h3 h4 h5, of "''newKey''" "[(''a'', Num 1)]" "''a''" "Num 2"]
    h1 h2 h3 h4 h5
  show ?thesis by blast
qed

end
